theory Spec2Isabelle
  imports Complex_Main "HOL-Library.Word" "HOL-Library.State_Monad"
begin

unbundle bit_operations_syntax

section \<open>Data model (src/types/index.ts, src/models/GameBoard.ts)\<close>

text \<open>
  A \<open>Coordinate\<close> is a JavaScript object \<open>{x, y}\<close>. The probability maps of the
  engine are \<open>Map<Coordinate, number>\<close>, which JavaScript keys by object identity, so
  the model keeps the identity of the object (\<open>coord_id\<close>) beside its two fields.
  The key strings \<open>`${x},${y}`\<close> built by \<open>coordToString\<close> are modelled by the pair
  of integers they print (\<open>key\<close>); the printing is injective on integers.
  JavaScript numbers are modelled exactly: integers as \<open>int\<close>/\<open>nat\<close>, probabilities
  and scores as \<open>real\<close>.
\<close>

type_synonym key = "int \<times> int"

record Coordinate =
  coord_id :: nat
  coord_x :: int
  coord_y :: int

record Cell =
  hasMine :: bool
  isRevealed :: bool
  isFlagged :: bool
  adjacentMines :: int
  coordinates :: Coordinate

record Constraint =
  centerCell :: Coordinate
  requiredMines :: int
  affectedCells :: "Coordinate list"

record GameBoard =
  board :: "Cell list list"
  width :: nat
  height :: nat
  mineCount :: int

text \<open>
  What the constructor \<open>GameBoard(width, height, mineCount)\<close> establishes through
  \<open>initializeBoard\<close> and no method changes: \<open>height\<close> rows of \<open>width\<close> cells, the
  cell at \<open>board[y][x]\<close> carrying the coordinates \<open>{x, y}\<close>, every coordinate object
  a fresh one.
\<close>

definition board_ok :: "GameBoard \<Rightarrow> bool" where
  "board_ok b \<longleftrightarrow>
     map (map (\<lambda>c. (coord_x (coordinates c), coord_y (coordinates c)))) (board b)
       = map (\<lambda>y. map (\<lambda>x. (int x, int y)) [0..<width b]) [0..<height b]
     \<and> distinct (map (\<lambda>c. coord_id (coordinates c)) (concat (board b)))"

definition isValidCoordinate :: "GameBoard \<Rightarrow> int \<Rightarrow> int \<Rightarrow> bool" where
  "isValidCoordinate b x y \<longleftrightarrow> x \<ge> 0 \<and> x < int (width b) \<and> y \<ge> 0 \<and> y < int (height b)"

text \<open>\<open>this.board[y][x]\<close>, read only where \<open>isValidCoordinate\<close> holds.\<close>

definition cellAt :: "GameBoard \<Rightarrow> int \<Rightarrow> int \<Rightarrow> Cell" where
  "cellAt b x y = board b ! nat y ! nat x"

text \<open>The two nested loops over \<open>dy\<close> and \<open>dx\<close> of \<open>getAdjacentCells\<close>.\<close>

definition getAdjacentCells :: "GameBoard \<Rightarrow> int \<Rightarrow> int \<Rightarrow> Cell list" where
  "getAdjacentCells b x y =
     concat (map (\<lambda>dy. concat (map (\<lambda>dx.
        if dx = 0 \<and> dy = 0 then []
        else if isValidCoordinate b (x + dx) (y + dy) then [cellAt b (x + dx) (y + dy)]
        else []) [-1, 0, 1])) [-1, 0, 1])"

text \<open>The row-major scan \<open>for y < height, for x < width\<close> shared by the getters.\<close>

definition allCells :: "GameBoard \<Rightarrow> Cell list" where
  "allCells b = concat (map (\<lambda>y. map (\<lambda>x. board b ! y ! x) [0..<width b]) [0..<height b])"

definition getUnrevealedCells :: "GameBoard \<Rightarrow> Cell list" where
  "getUnrevealedCells b = filter (\<lambda>c. \<not> isRevealed c) (allCells b)"

definition getRevealedCells :: "GameBoard \<Rightarrow> Cell list" where
  "getRevealedCells b = filter isRevealed (allCells b)"

definition getFlaggedCells :: "GameBoard \<Rightarrow> Cell list" where
  "getFlaggedCells b = filter isFlagged (allCells b)"

definition getMineCount :: "GameBoard \<Rightarrow> int" where
  "getMineCount b = mineCount b"

definition getRevealedCount :: "GameBoard \<Rightarrow> nat" where
  "getRevealedCount b = length (getRevealedCells b)"

definition getFlaggedCount :: "GameBoard \<Rightarrow> nat" where
  "getFlaggedCount b = length (getFlaggedCells b)"

section \<open>ConstraintSolver (src/ai/HintEngine.ts, second document)\<close>

definition coordToString :: "Coordinate \<Rightarrow> key" where
  "coordToString c = (coord_x c, coord_y c)"

text \<open>
  A JavaScript \<open>Set<string>\<close> iterates in insertion order: a list without
  repetition, \<open>add\<close> appending a new element at the end.
\<close>

definition set_add :: "'a list \<Rightarrow> 'a \<Rightarrow> 'a list" where
  "set_add s k = (if k \<in> set s then s else s @ [k])"

definition set_add_all :: "'a list \<Rightarrow> 'a list \<Rightarrow> 'a list" where
  "set_add_all s ks = fold (\<lambda>k acc. set_add acc k) ks s"

definition new_Set :: "'a list \<Rightarrow> 'a list" where
  "new_Set ks = set_add_all [] ks"

definition isSubset :: "'a list \<Rightarrow> 'a list \<Rightarrow> bool" where
  "isSubset set1 set2 = list_all (\<lambda>item. item \<in> set set2) set1"

text \<open>The body of the loop of \<open>extractConstraints\<close> for one revealed cell.\<close>

definition constraintOf :: "GameBoard \<Rightarrow> Cell \<Rightarrow> Constraint list" where
  "constraintOf b cell =
     (let adjacent = getAdjacentCells b (coord_x (coordinates cell)) (coord_y (coordinates cell));
          unrevealedAdjacent = filter (\<lambda>c. \<not> isRevealed c \<and> \<not> isFlagged c) adjacent;
          flaggedAdjacent = filter isFlagged adjacent;
          remainingMines = adjacentMines cell - int (length flaggedAdjacent)
      in if length unrevealedAdjacent > 0 \<and> remainingMines \<ge> 0
         then [\<lparr> centerCell = coordinates cell,
                 requiredMines = remainingMines,
                 affectedCells = map coordinates unrevealedAdjacent \<rparr>]
         else [])"

definition extractConstraints :: "GameBoard \<Rightarrow> Constraint list" where
  "extractConstraints b = concat (map (constraintOf b) (getRevealedCells b))"

definition validateConstraints :: "Constraint list \<Rightarrow> bool" where
  "validateConstraints cs =
     list_all (\<lambda>c. \<not> requiredMines c < 0 \<and> \<not> requiredMines c > int (length (affectedCells c))) cs"

text \<open>
  \<open>findGuaranteedMoves\<close>. The state of both loops is the pair of sets
  \<open>(guaranteedSafe, guaranteedMines)\<close>. The result lists are built by \<open>stringToCoord\<close>
  from the keys, one fresh object per key; nothing compares these objects by reference,
  so the model returns the keys.
\<close>

definition simpleRule :: "Constraint \<Rightarrow> key list \<times> key list \<Rightarrow> key list \<times> key list" where
  "simpleRule c g =
     (if requiredMines c = 0
      then (set_add_all (fst g) (map coordToString (affectedCells c)), snd g)
      else if requiredMines c = int (length (affectedCells c)) \<and> requiredMines c > 0
      then (fst g, set_add_all (snd g) (map coordToString (affectedCells c)))
      else g)"

definition subsetRule :: "Constraint \<Rightarrow> Constraint \<Rightarrow> key list \<times> key list \<Rightarrow> key list \<times> key list" where
  "subsetRule c1 c2 g =
     (let c1Set = new_Set (map coordToString (affectedCells c1));
          c2Set = new_Set (map coordToString (affectedCells c2))
      in if isSubset c1Set c2Set
         then (let difference = filter (\<lambda>s. s \<notin> set c1Set) c2Set;
                   mineDifference = requiredMines c2 - requiredMines c1
               in if mineDifference = 0
                  then (set_add_all (fst g) difference, snd g)
                  else if mineDifference = int (length difference) \<and> mineDifference > 0
                  then (fst g, set_add_all (snd g) difference)
                  else g)
         else g)"

definition subsetPass :: "Constraint list \<Rightarrow> key list \<times> key list \<Rightarrow> key list \<times> key list" where
  "subsetPass constraints g =
     fold (\<lambda>i. fold (\<lambda>j acc. if i = j then acc
                               else subsetRule (constraints ! i) (constraints ! j) acc)
                    [0..<length constraints])
          [0..<length constraints] g"

definition findGuaranteedMoves :: "GameBoard \<Rightarrow> key list \<times> key list" where
  "findGuaranteedMoves b =
     (let constraints = extractConstraints b
      in subsetPass constraints (fold simpleRule constraints ([], [])))"

text \<open>
  A complete mine assignment is a total predicate on cell keys. It satisfies a
  constraint when the number of mines among the affected cells is the required number:
  the count \<open>isValidAssignment\<close> makes.
\<close>

definition satisfies :: "(key \<Rightarrow> bool) \<Rightarrow> Constraint \<Rightarrow> bool" where
  "satisfies m c \<longleftrightarrow>
     int (length (filter (\<lambda>coord. m (coordToString coord)) (affectedCells c))) = requiredMines c"

section \<open>ProbabilityCalculator (src/unnamed/part_007)\<close>

text \<open>
  A \<open>Map<Coordinate, number>\<close>: entries in insertion order, looked up by the identity
  of the key object. \<open>set\<close> on a key already present replaces its value in place.
\<close>

type_synonym ProbMap = "(Coordinate \<times> real) list"

fun map_set :: "ProbMap \<Rightarrow> Coordinate \<Rightarrow> real \<Rightarrow> ProbMap" where
  "map_set [] k v = [(k, v)]"
| "map_set ((k', v') # m) k v =
     (if coord_id k' = coord_id k then (k', v) # m else (k', v') # map_set m k v)"

fun map_get :: "ProbMap \<Rightarrow> Coordinate \<Rightarrow> real option" where
  "map_get [] k = None"
| "map_get ((k', v') # m) k = (if coord_id k' = coord_id k then Some v' else map_get m k)"

text \<open>\<open>new Map(entries)\<close> and \<open>entries.forEach((v, k) => target.set(k, v))\<close>.\<close>

definition map_set_all :: "ProbMap \<Rightarrow> (Coordinate \<times> real) list \<Rightarrow> ProbMap" where
  "map_set_all m entries = fold (\<lambda>(coord, prob) acc. map_set acc coord prob) entries m"

text \<open>
  \<open>(i & (1 << j)) !== 0\<close>: both operands are 32-bit integers, and the shift count is
  taken modulo 32. The loop counter \<open>i\<close> stays below 1000000.
\<close>

definition isMineBit :: "nat \<Rightarrow> nat \<Rightarrow> bool" where
  "isMineBit i j \<longleftrightarrow> (word_of_nat i :: 32 word) AND push_bit (j mod 32) 1 \<noteq> 0"

text \<open>
  A \<open>MineAssignment\<close> object: its properties in creation order. The inner loop
  \<open>assignment[cellKeys[j]] = isMine\<close> for \<open>j < cells.length\<close>.
\<close>

type_synonym MineAssignment = "(key \<times> bool) list"

definition obj_set :: "MineAssignment \<Rightarrow> key \<Rightarrow> bool \<Rightarrow> MineAssignment" where
  "obj_set a k v = (if k \<in> fst ` set a then map (\<lambda>p. if fst p = k then (k, v) else p) a
                    else a @ [(k, v)])"

definition assignmentOf :: "key list \<Rightarrow> nat \<Rightarrow> MineAssignment" where
  "assignmentOf cellKeys i =
     fold (\<lambda>j a. obj_set a (cellKeys ! j) (isMineBit i j)) [0..<length cellKeys] []"

definition isValidAssignment :: "MineAssignment \<Rightarrow> Constraint list \<Rightarrow> bool" where
  "isValidAssignment assignment constraints =
     list_all (\<lambda>c. int (length (filter (\<lambda>coord. map_of assignment (coordToString coord) = Some True)
                                    (affectedCells c))) = requiredMines c) constraints"

definition generateValidAssignments :: "Constraint list \<Rightarrow> Coordinate list \<Rightarrow> MineAssignment list" where
  "generateValidAssignments constraints cells =
     (let cellKeys = map coordToString cells;
          totalCombinations = (2::nat) ^ length cells;
          maxCombinations = min totalCombinations 1000000
      in filter (\<lambda>a. isValidAssignment a constraints)
           (map (assignmentOf cellKeys) [0..<maxCombinations]))"

text \<open>
  \<open>mineCounts\<close> is a \<open>Map<string, number>\<close> that is only read and written by key.
  The two nested \<open>forEach\<close> over the valid assignments and their entries.
\<close>

definition countMines :: "MineAssignment list \<Rightarrow> (key \<rightharpoonup> nat) \<Rightarrow> (key \<rightharpoonup> nat)" where
  "countMines validAssignments mineCounts =
     fold (\<lambda>assignment.
             fold (\<lambda>(cellKey, isMine) mc.
                     case mc cellKey of
                       Some n \<Rightarrow> if isMine then mc(cellKey \<mapsto> n + 1) else mc
                     | None \<Rightarrow> mc) assignment)
          validAssignments mineCounts"

definition calculateConstrainedProbabilities :: "Constraint list \<Rightarrow> Coordinate list \<Rightarrow> ProbMap" where
  "calculateConstrainedProbabilities constraints constrainedCells =
     (let probabilities = fold (\<lambda>coord m. map_set m coord 0) constrainedCells [];
          validAssignments = generateValidAssignments constraints constrainedCells
      in if length validAssignments = 0
         then fold (\<lambda>coord m. map_set m coord 0.5) constrainedCells probabilities
         else
           (let mineCounts = countMines validAssignments
                  (fold (\<lambda>coord mc. mc(coordToString coord \<mapsto> 0)) constrainedCells Map.empty)
            in fold (\<lambda>coord m. map_set m coord
                       (real (case mineCounts (coordToString coord) of Some n \<Rightarrow> n | None \<Rightarrow> 0)
                          / real (length validAssignments)))
                 constrainedCells probabilities))"

text \<open>\<open>Math.round\<close> rounds to the nearest integer, halves upwards.\<close>

definition js_round :: "real \<Rightarrow> int" where
  "js_round r = \<lfloor>r + 1 / 2\<rfloor>"

definition calculateUnconstrainedProbability :: "GameBoard \<Rightarrow> nat \<Rightarrow> nat \<Rightarrow> real" where
  "calculateUnconstrainedProbability b constrainedCellCount unconstrainedCellCount =
     (if unconstrainedCellCount = 0 then 0
      else
        (let totalMines = getMineCount b;
             flaggedCount = int (getFlaggedCount b);
             revealedMines = int (length (filter hasMine (getRevealedCells b)));
             remainingMines = totalMines - flaggedCount - revealedMines;
             estimatedConstrainedMines =
               min remainingMines (js_round (real constrainedCellCount * 0.2));
             remainingUnconstrainedMines = max 0 (remainingMines - estimatedConstrainedMines)
         in min 1 (real_of_int remainingUnconstrainedMines / real unconstrainedCellCount)))"

definition calculateProbabilities :: "GameBoard \<Rightarrow> ProbMap" where
  "calculateProbabilities b =
     (let constraints = extractConstraints b;
          unrevealedCells =
            map coordinates (filter (\<lambda>cell. \<not> isFlagged cell) (getUnrevealedCells b))
      in if length unrevealedCells = 0 then []
         else
           (let constrainedCells =
                  set_add_all [] (concat (map (\<lambda>c. map coordToString (affectedCells c)) constraints));
                constrainedCoords =
                  filter (\<lambda>coord. coordToString coord \<in> set constrainedCells) unrevealedCells;
                unconstrainedCoords =
                  filter (\<lambda>coord. coordToString coord \<notin> set constrainedCells) unrevealedCells;
                probabilities =
                  (if length constrainedCoords > 0 \<and> length constraints > 0
                   then map_set_all []
                          (calculateConstrainedProbabilities constraints constrainedCoords)
                   else [])
            in if length unconstrainedCoords > 0
               then (let unconstrainedProb =
                           calculateUnconstrainedProbability b
                             (length constrainedCoords) (length unconstrainedCoords)
                     in fold (\<lambda>coord m. map_set m coord unconstrainedProb)
                          unconstrainedCoords probabilities)
               else probabilities))"

text \<open>\<open>calculateInformationGain\<close> reads only the fields \<open>x\<close> and \<open>y\<close> of its coordinate.\<close>

definition calculateInformationGain :: "key \<Rightarrow> GameBoard \<Rightarrow> real" where
  "calculateInformationGain coord b =
     (let adjacent = getAdjacentCells b (fst coord) (snd coord);
          unrevealedAdjacent = filter (\<lambda>cell. \<not> isRevealed cell \<and> \<not> isFlagged cell) adjacent;
          revealedAdjacent = filter isRevealed adjacent;
          baseGain = real (length unrevealedAdjacent);
          constraintBonus = real (length revealedAdjacent) * 0.5
      in baseGain + constraintBonus)"

text \<open>
  \<open>handleEdgeCases\<close>. The \<open>forEach\<close> runs over the copy while it sets values of keys
  already present, so every entry is visited once with its original value.
\<close>

definition edgeAdjust :: "GameBoard \<Rightarrow> Coordinate \<times> real \<Rightarrow> ProbMap \<Rightarrow> ProbMap" where
  "edgeAdjust b entry m =
     (let coord = fst entry; prob = snd entry;
          isCorner = (coord_x coord = 0 \<or> coord_x coord = int (width b) - 1) \<and>
                     (coord_y coord = 0 \<or> coord_y coord = int (height b) - 1);
          isEdge = coord_x coord = 0 \<or> coord_x coord = int (width b) - 1 \<or>
                   coord_y coord = 0 \<or> coord_y coord = int (height b) - 1
      in if isCorner then map_set m coord (prob * 0.8)
         else if isEdge then map_set m coord (prob * 0.9)
         else m)"

definition handleEdgeCases :: "GameBoard \<Rightarrow> ProbMap \<Rightarrow> ProbMap" where
  "handleEdgeCases b probabilities =
     (let adjustedProbabilities = map_set_all [] probabilities;
          revealedCount = getRevealedCount b
      in if real revealedCount < real (width b * height b) * 0.1
         then fold (edgeAdjust b) adjustedProbabilities adjustedProbabilities
         else adjustedProbabilities)"

section \<open>HintEngine (src/ai/HintEngine.ts, first document)\<close>

text \<open>
  A \<open>MoveRecommendation\<close> without its \<open>reasoning\<close> text, which no decision reads. The
  coordinate is kept by value.
\<close>

record MoveRecommendation =
  coordinate :: key
  probability :: real
  priority :: real

record HintAnalysis =
  guaranteedSafe :: "key list"
  guaranteedMines :: "key list"
  probabilities :: ProbMap
  recommendedMove :: "key option"
  confidence :: real

record CellRisk =
  riskProbability :: real
  isGuaranteedSafe :: bool
  isGuaranteedMine :: bool

definition calculateMovePriority :: "real \<Rightarrow> real \<Rightarrow> real" where
  "calculateMovePriority prob informationGain =
     (let safetyScore = (1 - prob) * 100;
          informationScore = informationGain * 10
      in safetyScore * 0.7 + informationScore * 0.3)"

text \<open>
  The loop of \<open>selectBestGuaranteedSafe\<close> from the second candidate on; the caller has
  checked that the list is not empty, which the model shows as the first element.
\<close>

definition selectBestGuaranteedSafe :: "GameBoard \<Rightarrow> key \<Rightarrow> key list \<Rightarrow> key" where
  "selectBestGuaranteedSafe b first others =
     (if others = [] then first
      else fst (fold (\<lambda>mv best.
                        (let gain = calculateInformationGain mv b
                         in if gain > snd best then (mv, gain) else best))
                  others (first, calculateInformationGain first b)))"

text \<open>
  \<open>recommendations.sort((a, b) => b.priority - a.priority)\<close> is a stable sort by
  descending priority.
\<close>

definition selectBestProbabilisticMove :: "GameBoard \<Rightarrow> ProbMap \<Rightarrow> MoveRecommendation option" where
  "selectBestProbabilisticMove b probs =
     (let recommendations =
            map (\<lambda>(coord, prob).
                   \<lparr> coordinate = coordToString coord, probability = prob,
                     priority = calculateMovePriority prob
                                  (calculateInformationGain (coordToString coord) b) \<rparr>) probs
      in case sort_key (\<lambda>r. - priority r) recommendations of
           [] \<Rightarrow> None
         | best # _ \<Rightarrow> Some best)"

definition getBestMove ::
  "GameBoard \<Rightarrow> key list \<times> key list \<Rightarrow> ProbMap \<Rightarrow> MoveRecommendation option" where
  "getBestMove b guaranteedMoves probs =
     (case fst guaranteedMoves of
        first # others \<Rightarrow>
          Some \<lparr> coordinate = selectBestGuaranteedSafe b first others,
                 probability = 0, priority = 1000 \<rparr>
      | [] \<Rightarrow> if length probs > 0 then selectBestProbabilisticMove b probs else None)"

definition calculateConfidence :: "key list \<times> key list \<Rightarrow> ProbMap \<Rightarrow> real" where
  "calculateConfidence guaranteedMoves probs =
     (if length (fst guaranteedMoves) > 0 \<or> length (snd guaranteedMoves) > 0 then 0.9
      else if length probs > 0
      then (let minProb = Min (set (map snd probs));
                maxProb = Max (set (map snd probs));
                spread = maxProb - minProb
            in if spread > 0.3 then 0.7 else if spread > 0.1 then 0.5 else 0.3)
      else 0.1)"

definition analyzeBoard :: "GameBoard \<Rightarrow> HintAnalysis" where
  "analyzeBoard b =
     (let guaranteedMoves = findGuaranteedMoves b;
          probs = calculateProbabilities b;
          adjustedProbabilities = handleEdgeCases b probs;
          recommended = getBestMove b guaranteedMoves adjustedProbabilities;
          conf = calculateConfidence guaranteedMoves adjustedProbabilities
      in \<lparr> guaranteedSafe = fst guaranteedMoves,
           guaranteedMines = snd guaranteedMoves,
           probabilities = adjustedProbabilities,
           recommendedMove = map_option coordinate recommended,
           confidence = conf \<rparr>)"

text \<open>\<open>probabilities.get(coord) || 0.5\<close>: a missing key and the value 0 both give 0.5.\<close>

definition analyzeCellRisk :: "Coordinate \<Rightarrow> GameBoard \<Rightarrow> CellRisk" where
  "analyzeCellRisk coord b =
     (let guaranteedMoves = findGuaranteedMoves b;
          probs = calculateProbabilities b
      in \<lparr> riskProbability =
             (case map_get probs coord of
                Some p \<Rightarrow> if p = 0 then 0.5 else p
              | None \<Rightarrow> 0.5),
           isGuaranteedSafe = list_ex (\<lambda>s. fst s = coord_x coord \<and> snd s = coord_y coord)
                                (fst guaranteedMoves),
           isGuaranteedMine = list_ex (\<lambda>s. fst s = coord_x coord \<and> snd s = coord_y coord)
                                (snd guaranteedMoves) \<rparr>)"

section \<open>The analysis as operations on the board object\<close>

text \<open>
  The same functions once more, with the board as the state they run in: every method
  of \<open>GameBoard\<close> the analysis calls is a read of the state, every function that
  receives \<open>gameBoard\<close> is a computation in the state monad, and the loops that call
  such functions are monadic folds (\<open>fold_st\<close>). The source assigns to no field of a
  cell and calls none of the mutating methods (\<open>placeMines\<close>, \<open>revealCell\<close>,
  \<open>toggleFlag\<close>, \<open>reset\<close>) on these paths, so no operation below writes the state; the
  sets, maps and arrays the analysis builds are its own values.
\<close>

type_synonym 'a board_op = "(GameBoard, 'a) state"

definition getAdjacentCells_st :: "int \<Rightarrow> int \<Rightarrow> Cell list board_op" where
  "getAdjacentCells_st x y = do { b \<leftarrow> State_Monad.get; State_Monad.return (getAdjacentCells b x y) }"

definition getRevealedCells_st :: "Cell list board_op" where
  "getRevealedCells_st = do { b \<leftarrow> State_Monad.get; State_Monad.return (getRevealedCells b) }"

definition getUnrevealedCells_st :: "Cell list board_op" where
  "getUnrevealedCells_st = do { b \<leftarrow> State_Monad.get; State_Monad.return (getUnrevealedCells b) }"

definition getFlaggedCells_st :: "Cell list board_op" where
  "getFlaggedCells_st = do { b \<leftarrow> State_Monad.get; State_Monad.return (getFlaggedCells b) }"

definition getMineCount_st :: "int board_op" where
  "getMineCount_st = do { b \<leftarrow> State_Monad.get; State_Monad.return (mineCount b) }"

definition getDimensions_st :: "(nat \<times> nat) board_op" where
  "getDimensions_st = do { b \<leftarrow> State_Monad.get; State_Monad.return (width b, height b) }"

definition getRevealedCount_st :: "nat board_op" where
  "getRevealedCount_st = do { cells \<leftarrow> getRevealedCells_st; State_Monad.return (length cells) }"

definition getFlaggedCount_st :: "nat board_op" where
  "getFlaggedCount_st = do { cells \<leftarrow> getFlaggedCells_st; State_Monad.return (length cells) }"

fun fold_st :: "('a \<Rightarrow> 'b \<Rightarrow> ('s, 'b) state) \<Rightarrow> 'a list \<Rightarrow> 'b \<Rightarrow> ('s, 'b) state" where
  "fold_st f [] acc = State_Monad.return acc"
| "fold_st f (x # xs) acc = do { acc' \<leftarrow> f x acc; fold_st f xs acc' }"

definition constraintStep_st :: "Cell \<Rightarrow> Constraint list \<Rightarrow> Constraint list board_op" where
  "constraintStep_st cell constraints = do {
     adjacent \<leftarrow> getAdjacentCells_st (coord_x (coordinates cell)) (coord_y (coordinates cell));
     let unrevealedAdjacent = filter (\<lambda>c. \<not> isRevealed c \<and> \<not> isFlagged c) adjacent;
     let flaggedAdjacent = filter isFlagged adjacent;
     let remainingMines = adjacentMines cell - int (length flaggedAdjacent);
     State_Monad.return
       (if length unrevealedAdjacent > 0 \<and> remainingMines \<ge> 0
        then constraints @ [\<lparr> centerCell = coordinates cell,
                               requiredMines = remainingMines,
                               affectedCells = map coordinates unrevealedAdjacent \<rparr>]
        else constraints)
   }"

definition extractConstraints_st :: "Constraint list board_op" where
  "extractConstraints_st = do {
     revealedCells \<leftarrow> getRevealedCells_st;
     fold_st constraintStep_st revealedCells []
   }"

definition findGuaranteedMoves_st :: "(key list \<times> key list) board_op" where
  "findGuaranteedMoves_st = do {
     constraints \<leftarrow> extractConstraints_st;
     State_Monad.return (subsetPass constraints (fold simpleRule constraints ([], [])))
   }"

definition calculateUnconstrainedProbability_st :: "nat \<Rightarrow> nat \<Rightarrow> real board_op" where
  "calculateUnconstrainedProbability_st constrainedCellCount unconstrainedCellCount =
     (if unconstrainedCellCount = 0 then State_Monad.return 0
      else do {
        totalMines \<leftarrow> getMineCount_st;
        flaggedCount \<leftarrow> getFlaggedCount_st;
        revealedCells \<leftarrow> getRevealedCells_st;
        let revealedMines = int (length (filter hasMine revealedCells));
        let remainingMines = totalMines - int flaggedCount - revealedMines;
        let estimatedConstrainedMines =
              min remainingMines (js_round (real constrainedCellCount * 0.2));
        let remainingUnconstrainedMines = max 0 (remainingMines - estimatedConstrainedMines);
        State_Monad.return (min 1 (real_of_int remainingUnconstrainedMines / real unconstrainedCellCount))
      })"

definition calculateProbabilities_st :: "ProbMap board_op" where
  "calculateProbabilities_st = do {
     constraints \<leftarrow> extractConstraints_st;
     unrevealed \<leftarrow> getUnrevealedCells_st;
     let unrevealedCells = map coordinates (filter (\<lambda>cell. \<not> isFlagged cell) unrevealed);
     if length unrevealedCells = 0 then State_Monad.return []
     else do {
       let constrainedCells =
             set_add_all [] (concat (map (\<lambda>c. map coordToString (affectedCells c)) constraints));
       let constrainedCoords =
             filter (\<lambda>coord. coordToString coord \<in> set constrainedCells) unrevealedCells;
       let unconstrainedCoords =
             filter (\<lambda>coord. coordToString coord \<notin> set constrainedCells) unrevealedCells;
       let probs = (if length constrainedCoords > 0 \<and> length constraints > 0
                    then map_set_all [] (calculateConstrainedProbabilities constraints constrainedCoords)
                    else []);
       if length unconstrainedCoords > 0
       then do {
         unconstrainedProb \<leftarrow> calculateUnconstrainedProbability_st
                                 (length constrainedCoords) (length unconstrainedCoords);
         State_Monad.return (fold (\<lambda>coord m. map_set m coord unconstrainedProb) unconstrainedCoords probs)
       }
       else State_Monad.return probs
     }
   }"

definition calculateInformationGain_st :: "key \<Rightarrow> real board_op" where
  "calculateInformationGain_st coord = do {
     adjacent \<leftarrow> getAdjacentCells_st (fst coord) (snd coord);
     let unrevealedAdjacent = filter (\<lambda>cell. \<not> isRevealed cell \<and> \<not> isFlagged cell) adjacent;
     let revealedAdjacent = filter isRevealed adjacent;
     State_Monad.return (real (length unrevealedAdjacent) + real (length revealedAdjacent) * 0.5)
   }"

definition handleEdgeCases_st :: "ProbMap \<Rightarrow> ProbMap board_op" where
  "handleEdgeCases_st probs = do {
     let adjustedProbabilities = map_set_all [] probs;
     dims \<leftarrow> getDimensions_st;
     revealedCount \<leftarrow> getRevealedCount_st;
     State_Monad.return
       (if real revealedCount < real (fst dims * snd dims) * 0.1
        then fold (\<lambda>entry m.
                (let coord = fst entry; prob = snd entry;
                     isCorner = (coord_x coord = 0 \<or> coord_x coord = int (fst dims) - 1) \<and>
                                (coord_y coord = 0 \<or> coord_y coord = int (snd dims) - 1);
                     isEdge = coord_x coord = 0 \<or> coord_x coord = int (fst dims) - 1 \<or>
                              coord_y coord = 0 \<or> coord_y coord = int (snd dims) - 1
                 in if isCorner then map_set m coord (prob * 0.8)
                    else if isEdge then map_set m coord (prob * 0.9)
                    else m)) adjustedProbabilities adjustedProbabilities
        else adjustedProbabilities)
   }"

definition bestStep_st :: "key \<Rightarrow> key \<times> real \<Rightarrow> (key \<times> real) board_op" where
  "bestStep_st mv best = do {
     gain \<leftarrow> calculateInformationGain_st mv;
     State_Monad.return (if gain > snd best then (mv, gain) else best)
   }"

definition selectBestGuaranteedSafe_st :: "key \<Rightarrow> key list \<Rightarrow> key board_op" where
  "selectBestGuaranteedSafe_st first others =
     (if others = [] then State_Monad.return first
      else do {
        bestGain \<leftarrow> calculateInformationGain_st first;
        best \<leftarrow> fold_st bestStep_st others (first, bestGain);
        State_Monad.return (fst best)
      })"

definition recommendStep_st ::
  "Coordinate \<times> real \<Rightarrow> MoveRecommendation list \<Rightarrow> MoveRecommendation list board_op" where
  "recommendStep_st entry recommendations = do {
     informationGain \<leftarrow> calculateInformationGain_st (coordToString (fst entry));
     State_Monad.return
       (recommendations @
          [\<lparr> coordinate = coordToString (fst entry), probability = snd entry,
             priority = calculateMovePriority (snd entry) informationGain \<rparr>])
   }"

definition selectBestProbabilisticMove_st :: "ProbMap \<Rightarrow> MoveRecommendation option board_op" where
  "selectBestProbabilisticMove_st probs = do {
     recommendations \<leftarrow> fold_st recommendStep_st probs [];
     State_Monad.return (case sort_key (\<lambda>r. - priority r) recommendations of
                           [] \<Rightarrow> None | best # _ \<Rightarrow> Some best)
   }"

definition getBestMove_st ::
  "key list \<times> key list \<Rightarrow> ProbMap \<Rightarrow> MoveRecommendation option board_op" where
  "getBestMove_st guaranteedMoves probs =
     (case fst guaranteedMoves of
        first # others \<Rightarrow> do {
          bestSafe \<leftarrow> selectBestGuaranteedSafe_st first others;
          State_Monad.return (Some \<lparr> coordinate = bestSafe, probability = 0, priority = 1000 \<rparr>)
        }
      | [] \<Rightarrow> if length probs > 0 then selectBestProbabilisticMove_st probs
              else State_Monad.return None)"

definition analyzeBoard_st :: "HintAnalysis board_op" where
  "analyzeBoard_st = do {
     guaranteedMoves \<leftarrow> findGuaranteedMoves_st;
     probs \<leftarrow> calculateProbabilities_st;
     adjustedProbabilities \<leftarrow> handleEdgeCases_st probs;
     recommended \<leftarrow> getBestMove_st guaranteedMoves adjustedProbabilities;
     let conf = calculateConfidence guaranteedMoves adjustedProbabilities;
     State_Monad.return
       \<lparr> guaranteedSafe = fst guaranteedMoves,
         guaranteedMines = snd guaranteedMoves,
         probabilities = adjustedProbabilities,
         recommendedMove = map_option coordinate recommended,
         confidence = conf \<rparr>
   }"

section \<open>Auxiliary notions of the proofs\<close>

text \<open>The offsets \<open>(dx, dy)\<close> in the order the loops of \<open>getAdjacentCells\<close> visit them.\<close>

definition neighbourOffsets :: "(int \<times> int) list" where
  "neighbourOffsets = [(-1, -1), (0, -1), (1, -1), (-1, 0), (1, 0), (-1, 1), (0, 1), (1, 1)]"

text \<open>
  The invariant of the two loops of \<open>findGuaranteedMoves\<close> with respect to a mine
  assignment: no cell recorded as safe is a mine, every cell recorded as a mine is one.
\<close>

definition sound :: "(key \<Rightarrow> bool) \<Rightarrow> key list \<times> key list \<Rightarrow> bool" where
  "sound m g \<longleftrightarrow> (\<forall>k\<in>set (fst g). \<not> m k) \<and> (\<forall>k\<in>set (snd g). m k)"

text \<open>The identities of a list of coordinate objects, and the map that holds the keys
  \<open>cs\<close> in this order with the values \<open>f\<close>.\<close>

definition ids :: "Coordinate list \<Rightarrow> nat list" where
  "ids cs = map coord_id cs"

definition tabulate :: "Coordinate list \<Rightarrow> (Coordinate \<Rightarrow> real) \<Rightarrow> ProbMap" where
  "tabulate cs f = map (\<lambda>c. (c, f c)) cs"

text \<open>The intermediate values of \<open>calculateProbabilities\<close>, named as in the source.\<close>

definition unrevealedCoords :: "GameBoard \<Rightarrow> Coordinate list" where
  "unrevealedCoords b = map coordinates (filter (\<lambda>cell. \<not> isFlagged cell) (getUnrevealedCells b))"

definition constrainedKeys :: "GameBoard \<Rightarrow> key list" where
  "constrainedKeys b =
     set_add_all [] (concat (map (\<lambda>c. map coordToString (affectedCells c)) (extractConstraints b)))"

definition constrainedCoords :: "GameBoard \<Rightarrow> Coordinate list" where
  "constrainedCoords b =
     filter (\<lambda>coord. coordToString coord \<in> set (constrainedKeys b)) (unrevealedCoords b)"

definition unconstrainedCoords :: "GameBoard \<Rightarrow> Coordinate list" where
  "unconstrainedCoords b =
     filter (\<lambda>coord. coordToString coord \<notin> set (constrainedKeys b)) (unrevealedCoords b)"

text \<open>
  The value \<open>calculateConstrainedProbabilities\<close> stores for a cell: 0.5 when no
  assignment is valid, else the share of the valid assignments that make it a mine.
\<close>

definition marginal :: "Constraint list \<Rightarrow> Coordinate list \<Rightarrow> Coordinate \<Rightarrow> real" where
  "marginal constraints cells coord =
     (let validAssignments = generateValidAssignments constraints cells
      in if validAssignments = [] then 0.5
         else real (length (filter (\<lambda>a. map_of a (coordToString coord) = Some True) validAssignments))
                / real (length validAssignments))"

text \<open>The probability \<open>calculateProbabilities\<close> stores for an unrevealed, unflagged cell.\<close>

definition cellProb :: "GameBoard \<Rightarrow> Coordinate \<Rightarrow> real" where
  "cellProb b c =
     (if coordToString c \<in> set (constrainedKeys b)
      then marginal (extractConstraints b) (constrainedCoords b) c
      else calculateUnconstrainedProbability b (length (constrainedCoords b))
             (length (unconstrainedCoords b)))"

text \<open>The early-game test of \<open>handleEdgeCases\<close> and the factor it applies to a cell.\<close>

definition earlyGame :: "GameBoard \<Rightarrow> bool" where
  "earlyGame b \<longleftrightarrow> real (getRevealedCount b) < real (width b * height b) * 0.1"

definition edgeFactor :: "GameBoard \<Rightarrow> Coordinate \<Rightarrow> real" where
  "edgeFactor b coord =
     (if (coord_x coord = 0 \<or> coord_x coord = int (width b) - 1) \<and>
         (coord_y coord = 0 \<or> coord_y coord = int (height b) - 1) then 0.8
      else if coord_x coord = 0 \<or> coord_x coord = int (width b) - 1 \<or>
              coord_y coord = 0 \<or> coord_y coord = int (height b) - 1 then 0.9
      else 1)"

text \<open>The two counts \<open>calculateInformationGain\<close> combines.\<close>

definition unrevealedNeighbours :: "key \<Rightarrow> GameBoard \<Rightarrow> nat" where
  "unrevealedNeighbours coord b =
     length (filter (\<lambda>cell. \<not> isRevealed cell \<and> \<not> isFlagged cell)
               (getAdjacentCells b (fst coord) (snd coord)))"

definition revealedNeighbours :: "key \<Rightarrow> GameBoard \<Rightarrow> nat" where
  "revealedNeighbours coord b = length (filter isRevealed (getAdjacentCells b (fst coord) (snd coord)))"

text \<open>Whether the enumeration of \<open>calculateProbabilities\<close> finds a valid assignment, and
  the factor \<open>handleEdgeCases\<close> applies to the probability of a cell.\<close>

definition consistentFound :: "GameBoard \<Rightarrow> bool" where
  "consistentFound b \<longleftrightarrow>
     generateValidAssignments (extractConstraints b) (constrainedCoords b) \<noteq> []"

definition earlyFactor :: "GameBoard \<Rightarrow> Coordinate \<Rightarrow> real" where
  "earlyFactor b coord = (if earlyGame b then edgeFactor b coord else 1)"

text \<open>
  The mines of the assignment number \<open>i\<close> over the cell keys \<open>ks\<close>, bit \<open>j\<close> of \<open>i\<close>
  deciding the cell \<open>j\<close>; a set of mines that satisfies every constraint of a list; the
  valid sets of mines within a set of cells.
\<close>

fun mineSet :: "key list \<Rightarrow> nat \<Rightarrow> key set" where
  "mineSet [] i = {}"
| "mineSet (k # ks) i = (if odd i then insert k (mineSet ks (i div 2)) else mineSet ks (i div 2))"

definition satAll :: "Constraint list \<Rightarrow> key set \<Rightarrow> bool" where
  "satAll cs T \<longleftrightarrow> (\<forall>c\<in>set cs. satisfies (\<lambda>k. k \<in> T) c)"

definition validSets :: "Constraint list \<Rightarrow> key set \<Rightarrow> key set set" where
  "validSets cs K = {T. T \<subseteq> K \<and> satAll cs T}"

section \<open>Example boards\<close>

text \<open>
  A board as the constructor, \<open>placeMines\<close>, \<open>revealCell\<close> and \<open>toggleFlag\<close> leave it,
  from rows of \<open>(hasMine, isRevealed, isFlagged, adjacentMines)\<close>. The coordinate object
  of the cell at \<open>(x, y)\<close> gets the identity \<open>y * width + x\<close>.
\<close>

definition mkCell :: "nat \<Rightarrow> bool \<Rightarrow> bool \<Rightarrow> bool \<Rightarrow> int \<Rightarrow> int \<Rightarrow> int \<Rightarrow> Cell" where
  "mkCell i m r f n x y =
     \<lparr> hasMine = m, isRevealed = r, isFlagged = f, adjacentMines = n,
       coordinates = \<lparr> coord_id = i, coord_x = x, coord_y = y \<rparr> \<rparr>"

definition mkBoard :: "nat \<Rightarrow> nat \<Rightarrow> int \<Rightarrow> (bool \<times> bool \<times> bool \<times> int) list list \<Rightarrow> GameBoard" where
  "mkBoard w h mc rows =
     \<lparr> board = map (\<lambda>(y, row). map (\<lambda>(x, (m, r, f, n)). mkCell (y * w + x) m r f n (int x) (int y))
                                   (enumerate 0 row)) (enumerate 0 rows),
       width = w, height = h, mineCount = mc \<rparr>"

text \<open>An unrevealed safe cell, an unrevealed mine, a flagged mine, a flag on a safe cell,
  a revealed cell showing \<open>n\<close>.\<close>

definition cU :: "bool \<times> bool \<times> bool \<times> int" where "cU = (False, False, False, 0)"
definition cM :: "bool \<times> bool \<times> bool \<times> int" where "cM = (True, False, False, 0)"
definition cF :: "bool \<times> bool \<times> bool \<times> int" where "cF = (True, False, True, 0)"
definition cW :: "bool \<times> bool \<times> bool \<times> int" where "cW = (False, False, True, 0)"
definition cR :: "int \<Rightarrow> bool \<times> bool \<times> bool \<times> int" where "cR n = (False, True, False, n)"

text \<open>One row: a mine at \<open>(1, 0)\<close> between two revealed cells showing 1.\<close>

definition board_row :: GameBoard where
  "board_row = mkBoard 4 1 1 [[cR 1, cM, cR 1, cU]]"

definition mines_row :: "key \<Rightarrow> bool" where
  "mines_row k \<longleftrightarrow> k = (1, 0)"

text \<open>Two flags beside the revealed cell \<open>(1, 0)\<close>, which shows 1; the flag at
  \<open>(0, 0)\<close> is the player's mistake.\<close>

definition board_flags :: GameBoard where
  "board_flags = mkBoard 4 2 1 [[cW, cR 1, cF, cR 1], [cU, cU, cU, cU]]"

text \<open>Four by three, two mines, the corner \<open>(0, 0)\<close> revealed and showing 1.\<close>

definition board_corner :: GameBoard where
  "board_corner = mkBoard 4 3 2 [[cR 1, cU, cU, cU], [cU, cM, cU, cU], [cU, cU, cU, cM]]"

text \<open>A coordinate object a caller builds for the cell \<open>(3, 0)\<close>, and the object a board
  of width 4 holds for that cell.\<close>

definition foreign_coord :: Coordinate where
  "foreign_coord = \<lparr> coord_id = 100, coord_x = 3, coord_y = 0 \<rparr>"

definition own_coord :: Coordinate where
  "own_coord = \<lparr> coord_id = 3, coord_x = 3, coord_y = 0 \<rparr>"

text \<open>Four by three without mines: the cell \<open>(1, 1)\<close> unrevealed among eight revealed
  cells, the last column unrevealed.\<close>

definition board_hole :: GameBoard where
  "board_hole = mkBoard 4 3 0 [[cR 0, cR 0, cR 0, cU], [cR 0, cU, cR 0, cU], [cR 0, cR 0, cR 0, cU]]"

text \<open>Four by three, the revealed corner \<open>(0, 0)\<close> showing 3: its three neighbours are
  mines.\<close>

definition board_three :: GameBoard where
  "board_three = mkBoard 4 3 3 [[cR 3, cM, cU, cU], [cM, cM, cU, cU], [cU, cU, cU, cU]]"

text \<open>Seven by two: the revealed columns 2 to 4 separate a mine at \<open>(1, 0)\<close> from a mine
  at \<open>(5, 1)\<close>. Six by one: a wrong flag at \<open>(0, 0)\<close>, mines at \<open>(2, 0)\<close> and
  \<open>(5, 0)\<close>.\<close>

definition board_two :: GameBoard where
  "board_two = mkBoard 7 2 2 [[cU, cM, cR 1, cR 0, cR 1, cU, cU],
                              [cU, cU, cR 1, cR 0, cR 1, cM, cU]]"

definition board_wrong_flag :: GameBoard where
  "board_wrong_flag = mkBoard 6 1 2 [[cW, cR 1, cM, cR 1, cR 1, cM]]"

definition left_component :: "key set" where
  "left_component = {(1, 0), (1, 1)}"

section \<open>Sets, boards and neighbours\<close>


lemma set_set_add_all: "set (set_add_all s ks) = set s \<union> set ks"
  unfolding set_add_all_def
  by (induction ks arbitrary: s) (auto simp: set_add_def)

lemma distinct_set_add_all: "distinct s \<Longrightarrow> distinct (set_add_all s ks)"
  unfolding set_add_all_def
  by (induction ks arbitrary: s) (auto simp: set_add_def)

lemma set_new_Set: "set (new_Set ks) = set ks"
  by (simp add: new_Set_def set_set_add_all)

lemma distinct_new_Set: "distinct (new_Set ks)"
  by (simp add: new_Set_def distinct_set_add_all)

lemma isSubset_iff: "isSubset s1 s2 \<longleftrightarrow> set s1 \<subseteq> set s2"
  by (auto simp: isSubset_def list_all_iff)

lemma board_ok_length: "board_ok b \<Longrightarrow> length (board b) = height b"
proof -
  assume "board_ok b"
  then have "length (map (map (\<lambda>c. (coord_x (coordinates c), coord_y (coordinates c)))) (board b))
               = length (map (\<lambda>y. map (\<lambda>x. (int x, int y)) [0..<width b]) [0..<height b])"
    unfolding board_ok_def by (simp only:)
  then show ?thesis by simp
qed

lemma board_ok_row:
  assumes "board_ok b" "y < height b"
  shows "map (\<lambda>c. (coord_x (coordinates c), coord_y (coordinates c))) (board b ! y)
           = map (\<lambda>x. (int x, int y)) [0..<width b]"
proof -
  let ?f = "map (\<lambda>c. (coord_x (coordinates c), coord_y (coordinates c)))"
  have "map ?f (board b) ! y = map (\<lambda>y. map (\<lambda>x. (int x, int y)) [0..<width b]) [0..<height b] ! y"
    using assms(1) unfolding board_ok_def by simp
  then show ?thesis
    using assms board_ok_length[OF assms(1)] by simp
qed

lemma board_ok_row_length:
  assumes "board_ok b" "y < height b"
  shows "length (board b ! y) = width b"
proof -
  have "length (map (\<lambda>c. (coord_x (coordinates c), coord_y (coordinates c))) (board b ! y))
          = length (map (\<lambda>x. (int x, int y)) [0..<width b])"
    using board_ok_row[OF assms] by (simp only:)
  then show ?thesis by simp
qed

lemma board_ok_coord:
  assumes "board_ok b" "y < height b" "x < width b"
  shows "coordToString (coordinates (board b ! y ! x)) = (int x, int y)"
proof -
  have "map (\<lambda>c. (coord_x (coordinates c), coord_y (coordinates c))) (board b ! y) ! x
          = map (\<lambda>x. (int x, int y)) [0..<width b] ! x"
    using board_ok_row[OF assms(1,2)] by simp
  then show ?thesis
    using assms board_ok_row_length[OF assms(1,2)] by (simp add: coordToString_def)
qed

lemma allCells_concat: "board_ok b \<Longrightarrow> allCells b = concat (board b)"
proof -
  assume ok: "board_ok b"
  have "map (\<lambda>y. map (\<lambda>x. board b ! y ! x) [0..<width b]) [0..<height b] = board b"
  proof (rule nth_equalityI)
    show "length (map (\<lambda>y. map (\<lambda>x. board b ! y ! x) [0..<width b]) [0..<height b]) = length (board b)"
      using board_ok_length[OF ok] by simp
  next
    fix i assume "i < length (map (\<lambda>y. map (\<lambda>x. board b ! y ! x) [0..<width b]) [0..<height b])"
    then have i: "i < height b" by simp
    have "map (\<lambda>x. board b ! i ! x) [0..<width b] = board b ! i"
      using board_ok_row_length[OF ok i] by (metis map_nth)
    then show "map (\<lambda>y. map (\<lambda>x. board b ! y ! x) [0..<width b]) [0..<height b] ! i = board b ! i"
      using i by simp
  qed
  then show ?thesis by (simp add: allCells_def)
qed

lemma allCells_keys:
  assumes "board_ok b"
  shows "map (\<lambda>c. coordToString (coordinates c)) (allCells b)
     = concat (map (\<lambda>y. map (\<lambda>x. (int x, int y)) [0..<width b]) [0..<height b])"
proof -
  have "map (\<lambda>c. coordToString (coordinates c)) (concat (board b))
          = concat (map (map (\<lambda>c. (coord_x (coordinates c), coord_y (coordinates c)))) (board b))"
    by (simp add: map_concat coordToString_def)
  then show ?thesis
    using assms by (simp add: allCells_concat board_ok_def)
qed



lemma getAdjacentCells_alt:
  "getAdjacentCells b x y =
     map (\<lambda>d. cellAt b (x + fst d) (y + snd d))
       (filter (\<lambda>d. isValidCoordinate b (x + fst d) (y + snd d)) neighbourOffsets)"
  by (simp add: getAdjacentCells_def neighbourOffsets_def)

lemma cellAt_key:
  assumes "board_ok b" "isValidCoordinate b x y"
  shows "coordToString (coordinates (cellAt b x y)) = (x, y)"
proof -
  have "nat y < height b" "nat x < width b" "int (nat x) = x" "int (nat y) = y"
    using assms(2) by (auto simp: isValidCoordinate_def)
  then show ?thesis
    using board_ok_coord[OF assms(1), of "nat y" "nat x"] by (simp add: cellAt_def)
qed

lemma cellAt_in:
  assumes "board_ok b" "isValidCoordinate b x y"
  shows "cellAt b x y \<in> set (allCells b)"
proof -
  have y: "nat y < length (board b)" and x: "nat x < length (board b ! nat y)"
    using assms board_ok_length[OF assms(1)] board_ok_row_length[OF assms(1), of "nat y"]
    by (auto simp: isValidCoordinate_def)
  have "board b ! nat y \<in> set (board b)" using y by simp
  moreover have "board b ! nat y ! nat x \<in> set (board b ! nat y)" using x by simp
  ultimately show ?thesis
    using assms(1) by (auto simp: allCells_concat cellAt_def)
qed

lemma adjacent_keys:
  assumes "board_ok b"
  shows "map (\<lambda>c. coordToString (coordinates c)) (getAdjacentCells b x y) =
     map (\<lambda>d. (x + fst d, y + snd d))
       (filter (\<lambda>d. isValidCoordinate b (x + fst d) (y + snd d)) neighbourOffsets)"
  unfolding getAdjacentCells_alt
  by (simp add: cellAt_key[OF assms] cong: map_cong)

lemma distinct_adjacent_keys:
  assumes "board_ok b"
  shows "distinct (map (\<lambda>c. coordToString (coordinates c)) (getAdjacentCells b x y))"
proof -
  have "distinct neighbourOffsets" by (simp add: neighbourOffsets_def)
  moreover have "inj (\<lambda>d::int \<times> int. (x + fst d, y + snd d))"
    by (auto simp: inj_on_def prod_eq_iff)
  ultimately show ?thesis
    unfolding adjacent_keys[OF assms]
    by (simp add: distinct_map inj_on_subset[OF _ subset_UNIV])
qed

lemma adjacent_in_allCells:
  assumes "board_ok b"
  shows "set (getAdjacentCells b x y) \<subseteq> set (allCells b)"
  unfolding getAdjacentCells_alt using cellAt_in[OF assms] by auto

lemma constraintOf_cases:
  assumes "c \<in> set (constraintOf b cell)"
  shows "centerCell c = coordinates cell \<and>
         requiredMines c = adjacentMines cell - int (length (filter isFlagged
            (getAdjacentCells b (coord_x (coordinates cell)) (coord_y (coordinates cell))))) \<and>
         requiredMines c \<ge> 0 \<and> affectedCells c \<noteq> [] \<and>
         affectedCells c = map coordinates (filter (\<lambda>c. \<not> isRevealed c \<and> \<not> isFlagged c)
            (getAdjacentCells b (coord_x (coordinates cell)) (coord_y (coordinates cell))))"
  using assms by (auto simp: constraintOf_def Let_def split: if_splits)

lemma extractConstraints_cases:
  assumes "c \<in> set (extractConstraints b)"
  obtains cell where "cell \<in> set (getRevealedCells b)" "c \<in> set (constraintOf b cell)"
  using assms by (auto simp: extractConstraints_def)

lemma constraint_keys_distinct:
  assumes "board_ok b" "c \<in> set (extractConstraints b)"
  shows "distinct (map coordToString (affectedCells c))"
proof -
  obtain cell where "c \<in> set (constraintOf b cell)"
    using assms(2) by (rule extractConstraints_cases)
  then have "affectedCells c = map coordinates (filter (\<lambda>c. \<not> isRevealed c \<and> \<not> isFlagged c)
            (getAdjacentCells b (coord_x (coordinates cell)) (coord_y (coordinates cell))))"
    using constraintOf_cases by blast
  then show ?thesis
    using distinct_adjacent_keys[OF assms(1)] by (simp add: distinct_map_filter o_def)
qed

section \<open>Soundness of the guaranteed moves\<close>


lemma satisfies_count:
  "satisfies m c \<longleftrightarrow> int (length (filter m (map coordToString (affectedCells c)))) = requiredMines c"
  by (simp add: satisfies_def filter_map o_def)

lemma filter_none: "length (filter P xs) = 0 \<Longrightarrow> x \<in> set xs \<Longrightarrow> \<not> P x"
  by (induction xs) (auto split: if_splits)

lemma filter_all: "length (filter P xs) = length xs \<Longrightarrow> x \<in> set xs \<Longrightarrow> P x"
proof (induction xs)
  case Nil
  then show ?case by simp
next
  case (Cons a xs)
  have le: "length (filter P xs) \<le> length xs" by simp
  show ?case
  proof (cases "P a")
    case True
    then show ?thesis using Cons by auto
  next
    case False
    then show ?thesis using Cons.prems le by simp
  qed
qed

lemma count_card: "distinct ks \<Longrightarrow> length (filter m ks) = card ({x. m x} \<inter> set ks)"
  by (rule distinct_length_filter)

lemma count_split:
  assumes "distinct ks1" "distinct ks2" "set ks1 \<subseteq> set ks2"
  shows "length (filter m ks2) = length (filter m ks1) + length (filter m (filter (\<lambda>s. s \<notin> set ks1) ks2))"
proof -
  let ?d = "filter (\<lambda>s. s \<notin> set ks1) ks2"
  have a: "length (filter m ks2) = card ({x. m x} \<inter> set ks2)"
    using assms(2) by (rule count_card)
  have b: "length (filter m ks1) = card ({x. m x} \<inter> set ks1)"
    using assms(1) by (rule count_card)
  have "distinct ?d" using assms(2) by simp
  then have c: "length (filter m ?d) = card ({x. m x} \<inter> set ?d)"
    by (rule count_card)
  have "{x. m x} \<inter> set ks2 = ({x. m x} \<inter> set ks1) \<union> ({x. m x} \<inter> set ?d)"
    using assms(3) by auto
  moreover have "({x. m x} \<inter> set ks1) \<inter> ({x. m x} \<inter> set ?d) = {}" by auto
  moreover have "finite ({x. m x} \<inter> set ks1)" "finite ({x. m x} \<inter> set ?d)" by simp_all
  ultimately have "card ({x. m x} \<inter> set ks2) = card ({x. m x} \<inter> set ks1) + card ({x. m x} \<inter> set ?d)"
    using card_Un_disjoint by metis
  then show ?thesis using a b c by simp
qed

lemma count_new_Set:
  assumes "distinct ks"
  shows "length (filter m (new_Set ks)) = length (filter m ks)"
proof -
  have "length (filter m (new_Set ks)) = card ({x. m x} \<inter> set (new_Set ks))"
    using distinct_new_Set by (rule count_card)
  also have "\<dots> = card ({x. m x} \<inter> set ks)" by (simp only: set_new_Set)
  also have "\<dots> = length (filter m ks)" using assms by (rule count_card[symmetric])
  finally show ?thesis .
qed

lemma sound_add_safe:
  assumes "sound m g" "\<And>k. k \<in> set d \<Longrightarrow> \<not> m k"
  shows "sound m (set_add_all (fst g) d, snd g)"
  using assms by (auto simp: sound_def set_set_add_all)

lemma sound_add_mines:
  assumes "sound m g" "\<And>k. k \<in> set d \<Longrightarrow> m k"
  shows "sound m (fst g, set_add_all (snd g) d)"
  using assms by (auto simp: sound_def set_set_add_all)

lemma simpleRule_sound:
  assumes "satisfies m c" "sound m g"
  shows "sound m (simpleRule c g)"
proof -
  define ks where "ks = map coordToString (affectedCells c)"
  have len: "length ks = length (affectedCells c)" by (simp add: ks_def)
  have n: "int (length (filter m ks)) = requiredMines c"
    unfolding ks_def using assms(1) by (simp only: satisfies_count)
  have unfold: "simpleRule c g =
     (if requiredMines c = 0 then (set_add_all (fst g) ks, snd g)
      else if requiredMines c = int (length ks) \<and> requiredMines c > 0
      then (fst g, set_add_all (snd g) ks) else g)"
    by (simp add: simpleRule_def ks_def)
  show ?thesis
  proof (cases "requiredMines c = 0")
    case True
    then have "length (filter m ks) = 0" using n by simp
    then have "\<And>k. k \<in> set ks \<Longrightarrow> \<not> m k" by (rule filter_none)
    then have "sound m (set_add_all (fst g) ks, snd g)" using assms(2) by (intro sound_add_safe)
    then show ?thesis using unfold True by simp
  next
    case False
    show ?thesis
    proof (cases "requiredMines c = int (length ks) \<and> requiredMines c > 0")
      case True
      then have "length (filter m ks) = length ks" using n by simp
      then have "\<And>k. k \<in> set ks \<Longrightarrow> m k" by (rule filter_all)
      then have "sound m (fst g, set_add_all (snd g) ks)" using assms(2) by (intro sound_add_mines)
      then show ?thesis using unfold True False by simp
    next
      case F2: False
      then show ?thesis using assms(2) False unfold by auto
    qed
  qed
qed

lemma subsetRule_sound:
  assumes s1: "satisfies m c1" and s2: "satisfies m c2" and g: "sound m g"
    and d1: "distinct (map coordToString (affectedCells c1))"
    and d2: "distinct (map coordToString (affectedCells c2))"
  shows "sound m (subsetRule c1 c2 g)"
proof -
  define k1 where "k1 = new_Set (map coordToString (affectedCells c1))"
  define k2 where "k2 = new_Set (map coordToString (affectedCells c2))"
  define d where "d = filter (\<lambda>s. s \<notin> set k1) k2"
  define md where "md = requiredMines c2 - requiredMines c1"
  have unfold: "subsetRule c1 c2 g =
      (if isSubset k1 k2
       then (if md = 0 then (set_add_all (fst g) d, snd g)
             else if md = int (length d) \<and> md > 0 then (fst g, set_add_all (snd g) d)
             else g)
       else g)"
    by (simp add: subsetRule_def Let_def k1_def k2_def d_def md_def)
  show ?thesis
  proof (cases "isSubset k1 k2")
    case False
    then show ?thesis using g unfold by simp
  next
    case True
    then have sub: "set k1 \<subseteq> set k2" by (simp add: isSubset_iff)
    have e1: "length (filter m k1) = length (filter m (map coordToString (affectedCells c1)))"
      unfolding k1_def using d1 by (rule count_new_Set)
    have e2: "length (filter m k2) = length (filter m (map coordToString (affectedCells c2)))"
      unfolding k2_def using d2 by (rule count_new_Set)
    have "distinct k1" "distinct k2" by (simp_all add: k1_def k2_def distinct_new_Set)
    then have "length (filter m k2) = length (filter m k1) + length (filter m d)"
      unfolding d_def using sub by (rule count_split)
    moreover have "int (length (filter m k1)) = requiredMines c1"
      using s1 e1 by (simp only: satisfies_count)
    moreover have "int (length (filter m k2)) = requiredMines c2"
      using s2 e2 by (simp only: satisfies_count)
    ultimately have diff: "int (length (filter m d)) = md"
      unfolding md_def by linarith
    show ?thesis
    proof (cases "md = 0")
      case Z: True
      then have "length (filter m d) = 0" using diff by simp
      then have "\<And>k. k \<in> set d \<Longrightarrow> \<not> m k" by (rule filter_none)
      then have "sound m (set_add_all (fst g) d, snd g)" using g by (intro sound_add_safe)
      then show ?thesis using unfold True Z by simp
    next
      case NZ: False
      show ?thesis
      proof (cases "md = int (length d) \<and> md > 0")
        case A: True
        then have "length (filter m d) = length d" using diff by simp
        then have "\<And>k. k \<in> set d \<Longrightarrow> m k" by (rule filter_all)
        then have "sound m (fst g, set_add_all (snd g) d)" using g by (intro sound_add_mines)
        then show ?thesis using unfold True NZ A by simp
      next
        case B: False
        then show ?thesis using unfold True NZ g by auto
      qed
    qed
  qed
qed

lemma fold_simpleRule_sound:
  assumes "\<forall>c\<in>set cs. satisfies m c" "sound m g"
  shows "sound m (fold simpleRule cs g)"
  using assms by (induction cs arbitrary: g) (auto simp: simpleRule_sound)

lemma inner_sound:
  assumes "\<forall>c\<in>set cs. satisfies m c \<and> distinct (map coordToString (affectedCells c))"
    and "i < length cs" "set js \<subseteq> {..<length cs}" "sound m g"
  shows "sound m (fold (\<lambda>j acc. if i = j then acc else subsetRule (cs ! i) (cs ! j) acc) js g)"
  using assms(3,4)
proof (induction js arbitrary: g)
  case Nil
  then show ?case by simp
next
  case (Cons j js)
  have "cs ! i \<in> set cs" "cs ! j \<in> set cs" using assms(2) Cons.prems(1) by auto
  then have "sound m (subsetRule (cs ! i) (cs ! j) g)"
    using assms(1) Cons.prems(2) by (intro subsetRule_sound) auto
  then show ?case using Cons by auto
qed

lemma subsetPass_sound:
  assumes "\<forall>c\<in>set cs. satisfies m c \<and> distinct (map coordToString (affectedCells c))" "sound m g"
  shows "sound m (subsetPass cs g)"
proof -
  have "set is \<subseteq> {..<length cs} \<Longrightarrow> sound m g \<Longrightarrow>
        sound m (fold (\<lambda>i. fold (\<lambda>j acc. if i = j then acc else subsetRule (cs ! i) (cs ! j) acc)
                    [0..<length cs]) is g)" for "is" g
  proof (induction "is" arbitrary: g)
    case Nil
    then show ?case by simp
  next
    case (Cons i "is")
    have "sound m (fold (\<lambda>j acc. if i = j then acc else subsetRule (cs ! i) (cs ! j) acc) [0..<length cs] g)"
      using Cons.prems assms(1) by (intro inner_sound) auto
    then show ?case using Cons by simp
  qed
  note H = this
  have "set [0..<length cs] \<subseteq> {..<length cs}" by auto
  then show ?thesis unfolding subsetPass_def using assms(2) by (rule H)
qed

lemma findGuaranteedMoves_invariant:
  assumes "board_ok b" and "\<forall>c\<in>set (extractConstraints b). satisfies m c"
  shows "sound m (findGuaranteedMoves b)"
proof -
  have "sound m ([], [])" by (simp add: sound_def)
  then have "sound m (fold simpleRule (extractConstraints b) ([], []))"
    using assms(2) by (rule fold_simpleRule_sound[rotated])
  then show ?thesis
    unfolding findGuaranteedMoves_def Let_def
    using assms constraint_keys_distinct[OF assms(1)] by (intro subsetPass_sound) auto
qed

text \<open>
  Claim C1. For every board, every coordinate that \<open>findGuaranteedMoves\<close> returns as
  safe is free of a mine in every complete mine assignment that satisfies all extracted
  constraints, and every coordinate it returns as a mine is a mine in every such
  assignment: the zero rule, the saturation rule and the subset rule are sound.
\<close>

theorem findGuaranteedMoves_sound:
  assumes "board_ok b" and "\<forall>c\<in>set (extractConstraints b). satisfies m c"
  shows "(\<forall>k\<in>set (fst (findGuaranteedMoves b)). \<not> m k) \<and>
         (\<forall>k\<in>set (snd (findGuaranteedMoves b)). m k)"
  using findGuaranteedMoves_invariant[OF assms] by (simp add: sound_def)

theorem findGuaranteedMoves_sound_witness:
  "board_ok board_row \<and> list_all (satisfies mines_row) (extractConstraints board_row) \<and>
   findGuaranteedMoves board_row = ([(3, 0)], [(1, 0)]) \<and>
   \<not> mines_row (3, 0) \<and> mines_row (1, 0)"
proof -
  have ok: "board_ok board_row" by code_simp
  have sat: "\<forall>c\<in>set (extractConstraints board_row). satisfies mines_row c" by code_simp
  have val: "findGuaranteedMoves board_row = ([(3, 0)], [(1, 0)])" by code_simp
  from findGuaranteedMoves_sound[OF ok sat] have "\<not> mines_row (3, 0) \<and> mines_row (1, 0)"
    by (simp add: val)
  with ok sat val show ?thesis by (simp add: list_all_iff)
qed

section \<open>Constraints with a negative count\<close>

lemma coordinates_inj:
  assumes "board_ok b" "c1 \<in> set (allCells b)" "c2 \<in> set (allCells b)"
    and "coordinates c1 = coordinates c2"
  shows "c1 = c2"
proof -
  have "inj_on (\<lambda>c. coord_id (coordinates c)) (set (concat (board b)))"
    using assms(1) unfolding board_ok_def by (simp add: distinct_map)
  then show ?thesis
    using assms by (auto simp: allCells_concat inj_on_def)
qed

text \<open>
  Claim C3, as the code has it. The extractor keeps a constraint only when its required
  count is not negative: on every board all extracted constraints have a required count
  of at least 0, and a revealed cell with more flagged neighbours than its adjacent-mine
  count is the centre of no extracted constraint.
\<close>

theorem extractConstraints_drops_negative:
  assumes "board_ok b" and "cell \<in> set (getRevealedCells b)"
    and "int (length (filter isFlagged
            (getAdjacentCells b (coord_x (coordinates cell)) (coord_y (coordinates cell)))))
          > adjacentMines cell"
  shows "\<forall>c\<in>set (extractConstraints b). requiredMines c \<ge> 0 \<and> centerCell c \<noteq> coordinates cell"
proof
  fix c assume c: "c \<in> set (extractConstraints b)"
  then obtain cell' where r: "cell' \<in> set (getRevealedCells b)" and k: "c \<in> set (constraintOf b cell')"
    by (rule extractConstraints_cases)
  have props: "centerCell c = coordinates cell'" "requiredMines c \<ge> 0"
    using constraintOf_cases[OF k] by simp_all
  have empty: "constraintOf b cell = []"
    using assms(3) by (simp add: constraintOf_def Let_def)
  have "coordinates cell' \<noteq> coordinates cell"
  proof
    assume "coordinates cell' = coordinates cell"
    moreover have "cell' \<in> set (allCells b)" "cell \<in> set (allCells b)"
      using r assms(2) by (simp_all add: getRevealedCells_def)
    ultimately have "cell' = cell" using coordinates_inj[OF assms(1)] by blast
    then show False using k empty by simp
  qed
  then show "requiredMines c \<ge> 0 \<and> centerCell c \<noteq> coordinates cell"
    using props by simp
qed

theorem extractConstraints_drops_negative_witness:
  "board_ok board_flags \<and> cellAt board_flags 1 0 \<in> set (getRevealedCells board_flags) \<and>
   list_all (\<lambda>c. requiredMines c \<ge> 0 \<and> centerCell c \<noteq> coordinates (cellAt board_flags 1 0))
     (extractConstraints board_flags) \<and>
   length (extractConstraints board_flags) = 1"
proof -
  have ok: "board_ok board_flags" by code_simp
  have r: "cellAt board_flags 1 0 \<in> set (getRevealedCells board_flags)" by code_simp
  have xy: "coord_x (coordinates (cellAt board_flags 1 0)) = 1"
    "coord_y (coordinates (cellAt board_flags 1 0)) = 0" by code_simp+
  have f: "int (length (filter isFlagged (getAdjacentCells board_flags 1 0)))
             > adjacentMines (cellAt board_flags 1 0)" by code_simp
  have n: "length (extractConstraints board_flags) = 1" by code_simp
  from extractConstraints_drops_negative[OF ok r] f xy
  have "\<forall>c\<in>set (extractConstraints board_flags).
          requiredMines c \<ge> 0 \<and> centerCell c \<noteq> coordinates (cellAt board_flags 1 0)"
    by simp
  with ok r n show ?thesis by (simp add: list_all_iff)
qed

text \<open>
  The claim as stated fails on \<open>board_flags\<close>: the revealed cell \<open>(1, 0)\<close> shows 1 and
  has two flagged neighbours and three unrevealed, unflagged ones, yet the only
  constraint extracted is the one of the cell \<open>(3, 0)\<close>, with required count 0.
\<close>

theorem extractConstraints_negative_counterexample:
  "board_ok board_flags \<and> cellAt board_flags 1 0 \<in> set (getRevealedCells board_flags) \<and>
   length (filter (\<lambda>c. \<not> isRevealed c \<and> \<not> isFlagged c) (getAdjacentCells board_flags 1 0)) = 3 \<and>
   int (length (filter isFlagged (getAdjacentCells board_flags 1 0)))
     > adjacentMines (cellAt board_flags 1 0) \<and>
   map (\<lambda>c. (coordToString (centerCell c), requiredMines c)) (extractConstraints board_flags)
     = [((3, 0), 0)] \<and>
   validateConstraints (extractConstraints board_flags)"
  by code_simp

section \<open>Maps keyed by object identity\<close>

lemma map_set_tabulate_in:
  assumes "distinct (ids cs)" "k \<in> set cs"
  shows "map_set (tabulate cs f) k v = tabulate cs (f(k := v))"
  using assms
proof (induction cs)
  case Nil
  then show ?case by simp
next
  case (Cons c cs)
  show ?case
  proof (cases "coord_id c = coord_id k")
    case True
    have "c = k"
    proof (rule ccontr)
      assume "c \<noteq> k"
      then have "k \<in> set cs" using Cons.prems(2) by auto
      then have "coord_id k \<in> set (ids cs)" by (simp add: ids_def)
      then show False using Cons.prems(1) True by (simp add: ids_def)
    qed
    moreover have "k \<notin> set cs"
      using Cons.prems(1) \<open>c = k\<close> by (auto simp: ids_def)
    then have "tabulate cs (f(k := v)) = tabulate cs f"
      by (auto simp: tabulate_def)
    ultimately show ?thesis by (simp add: tabulate_def)
  next
    case False
    then have "k \<in> set cs" "c \<noteq> k" using Cons.prems(2) by auto
    moreover have "distinct (ids cs)" using Cons.prems(1) by (simp add: ids_def)
    ultimately have "map_set (tabulate cs f) k v = tabulate cs (f(k := v))"
      using Cons.IH by blast
    then show ?thesis using False \<open>c \<noteq> k\<close> by (simp add: tabulate_def)
  qed
qed

lemma map_set_tabulate_new:
  assumes "coord_id k \<notin> set (ids cs)"
  shows "map_set (tabulate cs f) k v = tabulate cs f @ [(k, v)]"
  using assms by (induction cs) (auto simp: tabulate_def ids_def)

lemma fold_set_append:
  assumes "distinct (ids (pre @ ks))"
  shows "fold (\<lambda>c m. map_set m c (g c)) ks (tabulate pre f) = tabulate pre f @ tabulate ks g"
  using assms
proof (induction ks arbitrary: pre f)
  case Nil
  then show ?case by (simp add: tabulate_def)
next
  case (Cons k ks)
  have new: "coord_id k \<notin> set (ids pre)" and kpre: "k \<notin> set pre"
    using Cons.prems by (auto simp: ids_def)
  define f' where "f' = f(k := g k)"
  have same: "tabulate pre f' = tabulate pre f"
    using kpre by (auto simp: tabulate_def f'_def)
  have "map_set (tabulate pre f) k (g k) = tabulate pre f @ [(k, g k)]"
    using new by (rule map_set_tabulate_new)
  also have "\<dots> = tabulate (pre @ [k]) f'"
    using same by (simp add: tabulate_def f'_def)
  finally have step: "map_set (tabulate pre f) k (g k) = tabulate (pre @ [k]) f'" .
  have "distinct (ids ((pre @ [k]) @ ks))" using Cons.prems by simp
  then have "fold (\<lambda>c m. map_set m c (g c)) ks (tabulate (pre @ [k]) f')
               = tabulate (pre @ [k]) f' @ tabulate ks g"
    by (rule Cons.IH)
  then have "fold (\<lambda>c m. map_set m c (g c)) (k # ks) (tabulate pre f)
               = tabulate (pre @ [k]) f' @ tabulate ks g"
    using step by simp
  also have "\<dots> = tabulate pre f @ tabulate (k # ks) g"
    using same by (simp add: tabulate_def f'_def)
  finally show ?case .
qed

lemma fold_set_new: "distinct (ids ks) \<Longrightarrow> fold (\<lambda>c m. map_set m c (g c)) ks [] = tabulate ks g"
  using fold_set_append[of "[]" ks g "\<lambda>_. 0"] by (simp add: tabulate_def)

lemma fold_set_update:
  assumes "distinct (ids cs)" "set ks \<subseteq> set cs"
  shows "fold (\<lambda>c m. if u c then map_set m c (g c) else m) ks (tabulate cs f)
           = tabulate cs (\<lambda>c. if c \<in> set ks \<and> u c then g c else f c)"
  using assms(2)
proof (induction ks arbitrary: f)
  case Nil
  then show ?case by simp
next
  case (Cons k ks)
  have k: "k \<in> set cs" and ks: "set ks \<subseteq> set cs" using Cons.prems by auto
  show ?case
  proof (cases "u k")
    case True
    have "fold (\<lambda>c m. if u c then map_set m c (g c) else m) ks (tabulate cs (f(k := g k)))
            = tabulate cs (\<lambda>c. if c \<in> set ks \<and> u c then g c else (f(k := g k)) c)"
      using ks by (rule Cons.IH)
    moreover have "map_set (tabulate cs f) k (g k) = tabulate cs (f(k := g k))"
      using assms(1) k by (rule map_set_tabulate_in)
    moreover have "tabulate cs (\<lambda>c. if c \<in> set ks \<and> u c then g c else (f(k := g k)) c)
                 = tabulate cs (\<lambda>c. if c \<in> set (k # ks) \<and> u c then g c else f c)"
      using True by (auto simp: tabulate_def)
    ultimately show ?thesis using True by simp
  next
    case False
    have "fold (\<lambda>c m. if u c then map_set m c (g c) else m) ks (tabulate cs f)
            = tabulate cs (\<lambda>c. if c \<in> set ks \<and> u c then g c else f c)"
      using ks by (rule Cons.IH)
    then show ?thesis using False by (auto simp: tabulate_def)
  qed
qed

lemma map_set_all_tabulate:
  assumes "distinct (ids cs)"
  shows "map_set_all [] (tabulate cs f) = tabulate cs f"
proof -
  have "map_set_all [] (tabulate cs f) = fold (\<lambda>c m. map_set m c (f c)) cs []"
    by (simp add: map_set_all_def tabulate_def fold_map o_def)
  then show ?thesis using fold_set_new[OF assms] by simp
qed

lemma map_get_None: "map_get m k = None \<longleftrightarrow> coord_id k \<notin> coord_id ` fst ` set m"
proof (induction m)
  case Nil
  then show ?case by simp
next
  case (Cons e m)
  obtain c p where e: "e = (c, p)" by (cases e)
  show ?case
  proof (cases "coord_id c = coord_id k")
    case True
    then show ?thesis using e by (simp add: image_iff)
  next
    case False
    then show ?thesis using e Cons.IH by (simp add: image_iff)
  qed
qed

lemma map_get_Some: "map_get m k = Some v \<Longrightarrow> \<exists>c. (c, v) \<in> set m \<and> coord_id c = coord_id k"
proof (induction m)
  case Nil
  then show ?case by simp
next
  case (Cons e m)
  obtain c p where e: "e = (c, p)" by (cases e)
  show ?case
  proof (cases "coord_id c = coord_id k")
    case True
    then show ?thesis using Cons.prems e by auto
  next
    case False
    then have "map_get m k = Some v" using Cons.prems e by simp
    then show ?thesis using Cons.IH by auto
  qed
qed


section \<open>The combinatorial pass\<close>

lemma obj_set_distinct:
  assumes "distinct (map fst a)"
  shows "distinct (map fst (obj_set a k v))"
proof -
  have "map fst (map (\<lambda>p. if fst p = k then (k, v) else p) a) = map fst a"
    by (induction a) auto
  moreover have "k \<notin> fst ` set a \<Longrightarrow> distinct (map fst (a @ [(k, v)]))"
    using assms by simp
  ultimately show ?thesis using assms unfolding obj_set_def by presburger
qed

lemma assignmentOf_distinct: "distinct (map fst (assignmentOf ks i))"
proof -
  have "distinct (map fst a) \<Longrightarrow>
        distinct (map fst (fold (\<lambda>j a. obj_set a (ks ! j) (isMineBit i j)) js a))" for js a
    by (induction js arbitrary: a) (auto simp: obj_set_distinct)
  then show ?thesis by (simp add: assignmentOf_def)
qed

lemma countStep:
  assumes "distinct (map fst a)"
  shows "fold (\<lambda>(cellKey, isMine) mc.
                 case mc cellKey of Some n \<Rightarrow> if isMine then mc(cellKey \<mapsto> n + 1) else mc
                 | None \<Rightarrow> mc) a (mc :: key \<rightharpoonup> nat)
         = (\<lambda>k. case mc k of Some n \<Rightarrow> Some (n + (if map_of a k = Some True then 1 else 0))
                 | None \<Rightarrow> None)"
  using assms
proof (induction a arbitrary: mc)
  case Nil
  show ?case by (rule ext) (simp split: option.splits)
next
  case (Cons e a)
  obtain ck isMine where e: "e = (ck, isMine)" by (cases e)
  have d: "distinct (map fst a)" and notin: "ck \<notin> fst ` set a"
    using Cons.prems e by auto
  have none: "map_of a ck = None" using notin by (simp add: map_of_eq_None_iff)
  define mc' where "mc' = (case mc ck of Some n \<Rightarrow> if isMine then mc(ck \<mapsto> n + 1) else mc
                 | None \<Rightarrow> mc)"
  have "fold (\<lambda>(cellKey, isMine) mc.
                 case mc cellKey of Some n \<Rightarrow> if isMine then mc(cellKey \<mapsto> n + 1) else mc
                 | None \<Rightarrow> mc) (e # a) mc
        = (\<lambda>k. case mc' k of Some n \<Rightarrow> Some (n + (if map_of a k = Some True then 1 else 0))
                 | None \<Rightarrow> None)"
    using Cons.IH[OF d, of mc'] by (simp add: e mc'_def)
  also have "\<dots> = (\<lambda>k. case mc k of Some n \<Rightarrow> Some (n + (if map_of (e # a) k = Some True then 1 else 0))
                 | None \<Rightarrow> None)"
  proof
    fix k
    show "(case mc' k of Some n \<Rightarrow> Some (n + (if map_of a k = Some True then 1 else 0)) | None \<Rightarrow> None)
        = (case mc k of Some n \<Rightarrow> Some (n + (if map_of (e # a) k = Some True then 1 else 0)) | None \<Rightarrow> None)"
      using none by (cases "k = ck") (auto simp: mc'_def e split: option.splits)
  qed
  finally show ?case .
qed

lemma countMines_eq:
  assumes "\<forall>a\<in>set V. distinct (map fst a)"
  shows "countMines V mc
         = (\<lambda>k. case mc k of Some n \<Rightarrow> Some (n + length (filter (\<lambda>a. map_of a k = Some True) V))
                 | None \<Rightarrow> None)"
  using assms
proof (induction V arbitrary: mc)
  case Nil
  show ?case by (rule ext) (simp add: countMines_def split: option.splits)
next
  case (Cons a V)
  define mc' where "mc' = (\<lambda>k. case mc k of Some n \<Rightarrow> Some (n + (if map_of a k = Some True then 1 else 0))
                 | None \<Rightarrow> None)"
  have a: "distinct (map fst a)" and V: "\<forall>a\<in>set V. distinct (map fst a)"
    using Cons.prems by auto
  have "countMines (a # V) mc = countMines V mc'"
    using countStep[OF a, of mc] by (simp add: countMines_def mc'_def)
  also have "\<dots> = (\<lambda>k. case mc' k of Some n \<Rightarrow> Some (n + length (filter (\<lambda>a. map_of a k = Some True) V))
                 | None \<Rightarrow> None)"
    using V by (rule Cons.IH)
  also have "\<dots> = (\<lambda>k. case mc k of Some n \<Rightarrow> Some (n + length (filter (\<lambda>a. map_of a k = Some True) (a # V)))
                 | None \<Rightarrow> None)"
    by (rule ext) (auto simp: mc'_def split: option.splits)
  finally show ?case .
qed

lemma initCounts:
  "fold (\<lambda>coord mc. mc(coordToString coord \<mapsto> 0)) cells mc0 k
     = (if k \<in> coordToString ` set cells then Some (0::nat) else mc0 k)"
  by (induction cells arbitrary: mc0) auto

lemma generated_distinct: "\<forall>a\<in>set (generateValidAssignments cs cells). distinct (map fst a)"
  by (auto simp: generateValidAssignments_def Let_def assignmentOf_distinct)

lemma constrained_tabulate:
  assumes "distinct (ids cells)"
  shows "calculateConstrainedProbabilities cs cells = tabulate cells (marginal cs cells)"
proof -
  define V where "V = generateValidAssignments cs cells"
  have init: "fold (\<lambda>coord m. map_set m coord 0) cells [] = tabulate cells (\<lambda>_. 0)"
    using fold_set_new[OF assms, of "\<lambda>_. 0"] by simp
  have upd: "fold (\<lambda>coord m. map_set m coord (g coord)) cells (tabulate cells (\<lambda>_. 0)) = tabulate cells g" for g
    using fold_set_update[OF assms, of cells "\<lambda>_. True" g "\<lambda>_. 0"] by (simp add: tabulate_def)
  show ?thesis
  proof (cases "V = []")
    case True
    then have "marginal cs cells = (\<lambda>_. 0.5)"
      by (rule_tac ext) (simp add: marginal_def Let_def V_def)
    then show ?thesis
      using True upd[of "\<lambda>_. 0.5"] by (simp add: calculateConstrainedProbabilities_def init V_def[symmetric])
  next
    case False
    define mc where "mc = countMines V (fold (\<lambda>coord mc. mc(coordToString coord \<mapsto> 0)) cells Map.empty)"
    have mc: "mc k = (if k \<in> coordToString ` set cells
                      then Some (length (filter (\<lambda>a. map_of a k = Some True) V)) else None)" for k
      unfolding mc_def using generated_distinct[of cs cells]
      by (simp add: countMines_eq V_def[symmetric] initCounts)
    have "tabulate cells (\<lambda>coord. real (case mc (coordToString coord) of Some n \<Rightarrow> n | None \<Rightarrow> 0) / real (length V))
            = tabulate cells (marginal cs cells)"
      using False by (auto simp: tabulate_def mc marginal_def V_def[symmetric])
    then show ?thesis
      using False upd[of "\<lambda>coord. real (case mc (coordToString coord) of Some n \<Rightarrow> n | None \<Rightarrow> 0) / real (length V)"]
      by (simp add: calculateConstrainedProbabilities_def init V_def[symmetric] mc_def[symmetric] Let_def)
  qed
qed

lemma marginal_range: "0 \<le> marginal cs cells c \<and> marginal cs cells c \<le> 1"
proof -
  define V where "V = generateValidAssignments cs cells"
  have "length (filter (\<lambda>a. map_of a (coordToString c) = Some True) V) \<le> length V" by simp
  then have "real (length (filter (\<lambda>a. map_of a (coordToString c) = Some True) V)) \<le> real (length V)"
    by (rule of_nat_mono)
  then show ?thesis
    by (auto simp: marginal_def Let_def V_def[symmetric] divide_le_eq_1)
qed


text \<open>
  The bound of the enumeration, for evaluation: below 20 cells all \<open>2 ^ n\<close> assignments
  are tried, from 20 cells on only the first 1000000.
\<close>

lemma generateValidAssignments_code [code]:
  "generateValidAssignments constraints cells =
     (let cellKeys = map coordToString cells; n = length cells
      in filter (\<lambda>a. isValidAssignment a constraints)
           (map (assignmentOf cellKeys) (if n < 20 then [0..<2 ^ n] else [0..<1000000])))"
proof -
  have "n < 20 \<Longrightarrow> (2::nat) ^ n \<le> 2 ^ 19" for n
    by (rule power_increasing) auto
  then have "n < 20 \<Longrightarrow> min ((2::nat) ^ n) 1000000 = 2 ^ n" for n
    by fastforce
  moreover have "\<not> n < 20 \<Longrightarrow> (2::nat) ^ 20 \<le> 2 ^ n" for n
    by (rule power_increasing) auto
  then have "\<not> n < 20 \<Longrightarrow> min ((2::nat) ^ n) 1000000 = 1000000" for n
    by fastforce
  ultimately show ?thesis
    by (simp add: generateValidAssignments_def Let_def)
qed

section \<open>The probability map as a table\<close>

lemma cells_ids_distinct:
  assumes "board_ok b"
  shows "distinct (ids (map coordinates (allCells b)))"
  using assms by (simp add: board_ok_def allCells_concat ids_def o_def)

lemma unrevealedCoords_distinct:
  assumes "board_ok b"
  shows "distinct (ids (unrevealedCoords b))"
proof -
  have "distinct (map (\<lambda>c. coord_id (coordinates c)) (allCells b))"
    using cells_ids_distinct[OF assms] by (simp add: ids_def o_def)
  then have "distinct (map (\<lambda>c. coord_id (coordinates c))
               (filter (\<lambda>cell. \<not> isFlagged cell) (filter (\<lambda>c. \<not> isRevealed c) (allCells b))))"
    by (intro distinct_map_filter)
  then show ?thesis
    by (simp add: unrevealedCoords_def getUnrevealedCells_def ids_def o_def)
qed

lemma split_distinct:
  assumes "distinct (ids cs)"
  shows "distinct (ids (filter P cs @ filter (\<lambda>c. \<not> P c) cs))"
proof -
  have "distinct (map coord_id (filter P cs))" "distinct (map coord_id (filter (\<lambda>c. \<not> P c) cs))"
    using assms unfolding ids_def by (intro distinct_map_filter, assumption)+
  moreover have "coord_id ` set (filter P cs) \<inter> coord_id ` set (filter (\<lambda>c. \<not> P c) cs) = {}"
  proof -
    have inj: "inj_on coord_id (set cs)" using assms by (simp add: ids_def distinct_map)
    show ?thesis
    proof (rule ccontr)
      assume "\<not> ?thesis"
      then obtain c1 c2 where "c1 \<in> set cs" "P c1" "c2 \<in> set cs" "\<not> P c2" "coord_id c1 = coord_id c2"
        by auto
      then show False using inj by (auto simp: inj_on_def)
    qed
  qed
  ultimately show ?thesis by (simp add: ids_def)
qed

lemma parts_distinct:
  assumes "board_ok b"
  shows "distinct (ids (constrainedCoords b @ unconstrainedCoords b))"
  unfolding constrainedCoords_def unconstrainedCoords_def
  using unrevealedCoords_distinct[OF assms] by (rule split_distinct)

lemma constrained_needs_constraint:
  assumes "constrainedCoords b \<noteq> []"
  shows "extractConstraints b \<noteq> []"
proof
  assume "extractConstraints b = []"
  then have "constrainedKeys b = []" by (simp add: constrainedKeys_def set_add_all_def)
  then show False using assms by (simp add: constrainedCoords_def)
qed

lemma calculateProbabilities_tabulate:
  assumes "board_ok b"
  shows "calculateProbabilities b
           = tabulate (constrainedCoords b @ unconstrainedCoords b) (cellProb b)"
proof -
  define con where "con = constrainedCoords b"
  define unc where "unc = unconstrainedCoords b"
  define pu where "pu = calculateUnconstrainedProbability b (length con) (length unc)"
  define cs where "cs = extractConstraints b"
  have dist: "distinct (ids (con @ unc))"
    using parts_distinct[OF assms] by (simp add: con_def unc_def)
  then have dcon: "distinct (ids con)" by (simp add: ids_def)
  define probs where "probs = (if length con > 0 \<and> length cs > 0
                         then map_set_all [] (calculateConstrainedProbabilities cs con) else [])"
  have unfold: "calculateProbabilities b =
     (if length (unrevealedCoords b) = 0 then []
      else if length unc > 0 then fold (\<lambda>coord m. map_set m coord pu) unc probs else probs)"
    unfolding calculateProbabilities_def Let_def probs_def con_def unc_def pu_def cs_def
        constrainedCoords_def unconstrainedCoords_def constrainedKeys_def unrevealedCoords_def
    by (rule refl)
  have p1: "probs = tabulate con (marginal cs con)"
  proof (cases "con = []")
    case True
    then show ?thesis by (simp add: tabulate_def probs_def)
  next
    case False
    then have "cs \<noteq> []" using constrained_needs_constraint[of b] by (simp add: con_def cs_def)
    then show ?thesis
      using False by (simp add: probs_def constrained_tabulate[OF dcon] map_set_all_tabulate[OF dcon])
  qed
  have p2: "(if length unc > 0 then fold (\<lambda>coord m. map_set m coord pu) unc probs else probs)
            = tabulate con (marginal cs con) @ tabulate unc (\<lambda>_. pu)"
    using fold_set_append[OF dist, of "\<lambda>_. pu" "marginal cs con"] p1
    by (cases "unc = []") (simp_all add: tabulate_def)
  have final: "tabulate con (marginal cs con) @ tabulate unc (\<lambda>_. pu) = tabulate (con @ unc) (cellProb b)"
    by (auto simp: tabulate_def cellProb_def con_def unc_def pu_def cs_def
        constrainedCoords_def unconstrainedCoords_def)
  show ?thesis
  proof (cases "unrevealedCoords b = []")
    case True
    then show ?thesis
      using unfold by (simp add: tabulate_def constrainedCoords_def unconstrainedCoords_def)
  next
    case False
    then have "calculateProbabilities b
        = (if length unc > 0 then fold (\<lambda>coord m. map_set m coord pu) unc probs else probs)"
      using unfold by simp
    then show ?thesis
      using p2 final by (simp only: con_def unc_def)
  qed
qed

lemma handleEdgeCases_tabulate:
  assumes "distinct (ids cs)"
  shows "handleEdgeCases b (tabulate cs f)
           = tabulate cs (\<lambda>c. if earlyGame b then f c * edgeFactor b c else f c)"
proof -
  define edge where "edge = (\<lambda>c::Coordinate. coord_x c = 0 \<or> coord_x c = int (width b) - 1 \<or>
              coord_y c = 0 \<or> coord_y c = int (height b) - 1)"
  have adj: "edgeAdjust b (c, f c) = (\<lambda>m. if edge c then map_set m c (f c * edgeFactor b c) else m)" for c
    by (rule ext) (auto simp: edgeAdjust_def edgeFactor_def edge_def Let_def)
  have "fold (edgeAdjust b) (tabulate cs f) (tabulate cs f)
          = fold (\<lambda>c m. if edge c then map_set m c (f c * edgeFactor b c) else m) cs (tabulate cs f)"
    by (simp add: tabulate_def fold_map o_def adj)
  also have "\<dots> = tabulate cs (\<lambda>c. if c \<in> set cs \<and> edge c then f c * edgeFactor b c else f c)"
    using assms by (intro fold_set_update) simp_all
  also have "\<dots> = tabulate cs (\<lambda>c. f c * edgeFactor b c)"
    by (auto simp: tabulate_def edgeFactor_def edge_def)
  finally have "fold (edgeAdjust b) (tabulate cs f) (tabulate cs f) = tabulate cs (\<lambda>c. f c * edgeFactor b c)" .
  then show ?thesis
    by (simp add: handleEdgeCases_def Let_def map_set_all_tabulate[OF assms] earlyGame_def getRevealedCount_def)
qed

lemma analyzeBoard_probabilities:
  assumes "board_ok b"
  shows "probabilities (analyzeBoard b)
           = tabulate (constrainedCoords b @ unconstrainedCoords b)
               (\<lambda>c. if earlyGame b then cellProb b c * edgeFactor b c else cellProb b c)"
  using handleEdgeCases_tabulate[OF parts_distinct[OF assms], of b "cellProb b"]
  by (simp add: analyzeBoard_def Let_def calculateProbabilities_tabulate[OF assms])


section \<open>Keys and bounds of the probability map\<close>

lemma unconstrained_range:
  "0 \<le> calculateUnconstrainedProbability b n k \<and> calculateUnconstrainedProbability b n k \<le> 1"
  by (simp add: calculateUnconstrainedProbability_def Let_def)

lemma cellProb_range: "0 \<le> cellProb b c \<and> cellProb b c \<le> 1"
  using marginal_range unconstrained_range by (simp add: cellProb_def)

lemma edgeFactor_range: "0 < edgeFactor b c \<and> edgeFactor b c \<le> 1"
  by (simp add: edgeFactor_def)

lemma unrevealed_partition:
  "set (constrainedCoords b @ unconstrainedCoords b) = set (unrevealedCoords b)"
  by (auto simp: constrainedCoords_def unconstrainedCoords_def)

lemma partition_length:
  "length (constrainedCoords b @ unconstrainedCoords b) = length (unrevealedCoords b)"
  using sum_length_filter_compl[of "\<lambda>coord. coordToString coord \<in> set (constrainedKeys b)" "unrevealedCoords b"]
  by (simp add: constrainedCoords_def unconstrainedCoords_def)

text \<open>
  Claim C5. For every board, the keys of the probability map that
  \<open>calculateProbabilities\<close> produces, and of the map returned in the analysis, are exactly
  the coordinate objects of the unrevealed, unflagged cells of the board, each once.
\<close>

theorem probability_map_keys:
  assumes "board_ok b"
  shows "distinct (map coord_id (map fst (calculateProbabilities b))) \<and>
         set (map fst (calculateProbabilities b))
           = coordinates ` {cell \<in> set (allCells b). \<not> isRevealed cell \<and> \<not> isFlagged cell} \<and>
         length (calculateProbabilities b)
           = length (filter (\<lambda>cell. \<not> isRevealed cell \<and> \<not> isFlagged cell) (allCells b)) \<and>
         map fst (probabilities (analyzeBoard b)) = map fst (calculateProbabilities b)"
proof -
  have keys: "map fst (calculateProbabilities b) = constrainedCoords b @ unconstrainedCoords b"
    by (simp add: calculateProbabilities_tabulate[OF assms] tabulate_def o_def)
  have keys': "map fst (probabilities (analyzeBoard b)) = constrainedCoords b @ unconstrainedCoords b"
    by (simp add: analyzeBoard_probabilities[OF assms] tabulate_def o_def)
  have d: "distinct (map coord_id (map fst (calculateProbabilities b)))"
    using parts_distinct[OF assms] by (simp only: keys ids_def)
  have s: "set (map fst (calculateProbabilities b))
           = coordinates ` {cell \<in> set (allCells b). \<not> isRevealed cell \<and> \<not> isFlagged cell}"
    unfolding keys unrevealed_partition
    by (auto simp: unrevealedCoords_def getUnrevealedCells_def)
  have "length (map fst (calculateProbabilities b)) = length (unrevealedCoords b)"
    unfolding keys by (rule partition_length)
  then have l: "length (calculateProbabilities b)
           = length (filter (\<lambda>cell. \<not> isRevealed cell \<and> \<not> isFlagged cell) (allCells b))"
    by (simp add: unrevealedCoords_def getUnrevealedCells_def conj_commute)
  show ?thesis using d s l keys keys' by simp
qed

text \<open>
  Claim C6. For every board, every value of the probability map returned by
  \<open>analyzeBoard\<close> lies between 0 and 1 inclusive: the marginals of the enumeration, the
  0.5 of the inconsistent case, the clamped background rate and the early-game factors.
\<close>

theorem probability_bounds:
  assumes "board_ok b"
  shows "\<forall>p\<in>set (map snd (probabilities (analyzeBoard b))). 0 \<le> p \<and> p \<le> 1"
proof -
  have "0 \<le> cellProb b c * edgeFactor b c \<and> cellProb b c * edgeFactor b c \<le> 1" for c
    using cellProb_range[of b c] edgeFactor_range[of b c]
    by (simp add: mult_le_one)
  then show ?thesis
    using cellProb_range[of b]
    by (auto simp: analyzeBoard_probabilities[OF assms] tabulate_def)
qed

theorem probability_map_keys_witness:
  "board_ok board_corner \<and>
   map coord_id (map fst (calculateProbabilities board_corner)) = [1, 4, 5, 2, 3, 6, 7, 8, 9, 10, 11] \<and>
   map coordToString (map fst (probabilities (analyzeBoard board_corner)))
     = [(1, 0), (0, 1), (1, 1), (2, 0), (3, 0), (2, 1), (3, 1), (0, 2), (1, 2), (2, 2), (3, 2)] \<and>
   length (filter (\<lambda>cell. \<not> isRevealed cell \<and> \<not> isFlagged cell) (allCells board_corner)) = 11"
proof -
  have ok: "board_ok board_corner" by code_simp
  have k: "map coord_id (map fst (calculateProbabilities board_corner)) = [1, 4, 5, 2, 3, 6, 7, 8, 9, 10, 11]"
    by code_simp
  have v: "map coordToString (map fst (calculateProbabilities board_corner))
     = [(1, 0), (0, 1), (1, 1), (2, 0), (3, 0), (2, 1), (3, 1), (0, 2), (1, 2), (2, 2), (3, 2)]"
    by code_simp
  from probability_map_keys[OF ok]
  have "length (filter (\<lambda>cell. \<not> isRevealed cell \<and> \<not> isFlagged cell) (allCells board_corner))
          = length (calculateProbabilities board_corner)"
    and "map fst (probabilities (analyzeBoard board_corner)) = map fst (calculateProbabilities board_corner)"
    by simp_all
  moreover have "length (calculateProbabilities board_corner) = length (map coord_id (map fst (calculateProbabilities board_corner)))"
    by simp
  ultimately show ?thesis using ok k v by (simp del: map_map)
qed

theorem probability_bounds_witness:
  "board_ok board_corner \<and>
   map snd (probabilities (analyzeBoard board_corner))
     = [3/10, 3/10, 1/3, 9/80, 1/10, 1/8, 9/80, 1/10, 9/80, 9/80, 1/10] \<and>
   list_all (\<lambda>p. 0 \<le> p \<and> p \<le> 1) (map snd (probabilities (analyzeBoard board_corner)))"
proof -
  have ok: "board_ok board_corner" by code_simp
  have v: "map snd (probabilities (analyzeBoard board_corner))
     = [3/10, 3/10, 1/3, 9/80, 1/10, 1/8, 9/80, 1/10, 9/80, 9/80, 1/10]" by code_simp
  from probability_bounds[OF ok] have "list_all (\<lambda>p. 0 \<le> p \<and> p \<le> 1) (map snd (probabilities (analyzeBoard board_corner)))"
    by (simp only: list_all_iff)
  with ok v show ?thesis by (simp only: simp_thms)
qed


section \<open>The risk of a single cell\<close>

lemma riskProbability_eq:
  "riskProbability (analyzeCellRisk coord b)
     = (case map_get (calculateProbabilities b) coord of
          Some p \<Rightarrow> if p = 0 then 0.5 else p | None \<Rightarrow> 0.5)"
  by (simp add: analyzeCellRisk_def Let_def)

text \<open>
  Claim C10. For every board and coordinate object, \<open>analyzeCellRisk\<close> never reports the
  probability 0: when the lookup in the probability map gives 0 or misses, the reported
  probability is the default 0.5; and the lookup misses for every coordinate object that
  is not one of the board's own, whatever its \<open>x\<close> and \<open>y\<close>, because the map is keyed by
  object identity.
\<close>

theorem analyzeCellRisk_default:
  assumes "board_ok b"
  shows "riskProbability (analyzeCellRisk coord b) \<noteq> 0 \<and>
         (map_get (calculateProbabilities b) coord = None \<or>
          map_get (calculateProbabilities b) coord = Some 0
            \<longrightarrow> riskProbability (analyzeCellRisk coord b) = 0.5) \<and>
         (coord_id coord \<notin> coord_id ` coordinates ` set (allCells b)
            \<longrightarrow> map_get (calculateProbabilities b) coord = None \<and>
                riskProbability (analyzeCellRisk coord b) = 0.5)"
proof -
  have a: "riskProbability (analyzeCellRisk coord b) \<noteq> 0"
    by (simp add: riskProbability_eq split: option.splits)
  have b: "map_get (calculateProbabilities b) coord = None \<or>
          map_get (calculateProbabilities b) coord = Some 0
            \<longrightarrow> riskProbability (analyzeCellRisk coord b) = 0.5"
    by (auto simp: riskProbability_eq)
  have "set (map fst (calculateProbabilities b)) = set (unrevealedCoords b)"
    using unrevealed_partition[of b]
    by (simp add: calculateProbabilities_tabulate[OF assms] tabulate_def o_def)
  then have keys: "fst ` set (calculateProbabilities b) \<subseteq> coordinates ` set (allCells b)"
    by (auto simp: unrevealedCoords_def getUnrevealedCells_def)
  have c: "coord_id coord \<notin> coord_id ` coordinates ` set (allCells b)
            \<longrightarrow> map_get (calculateProbabilities b) coord = None \<and>
                riskProbability (analyzeCellRisk coord b) = 0.5"
  proof
    assume "coord_id coord \<notin> coord_id ` coordinates ` set (allCells b)"
    then have "coord_id coord \<notin> coord_id ` fst ` set (calculateProbabilities b)"
      using keys by blast
    then have "map_get (calculateProbabilities b) coord = None"
      using map_get_None by blast
    then show "map_get (calculateProbabilities b) coord = None \<and>
                riskProbability (analyzeCellRisk coord b) = 0.5"
      by (simp add: riskProbability_eq)
  qed
  show ?thesis using a b c by blast
qed

theorem analyzeCellRisk_default_witness:
  "board_ok board_corner \<and>
   coord_id foreign_coord \<notin> coord_id ` coordinates ` set (allCells board_corner) \<and>
   coordToString foreign_coord = coordToString own_coord \<and>
   riskProbability (analyzeCellRisk own_coord board_corner) = 1 / 8 \<and>
   riskProbability (analyzeCellRisk foreign_coord board_corner) = 0.5 \<and>
   map_get (calculateProbabilities board_row) own_coord = Some 0 \<and>
   riskProbability (analyzeCellRisk own_coord board_row) = 0.5"
proof -
  have ok: "board_ok board_corner" by code_simp
  have ok2: "board_ok board_row" by code_simp
  have f: "coord_id foreign_coord \<notin> coord_id ` coordinates ` set (allCells board_corner)"
    by code_simp
  have e: "coordToString foreign_coord = coordToString own_coord" by code_simp
  have o: "riskProbability (analyzeCellRisk own_coord board_corner) = 1 / 8" by code_simp
  have z: "map_get (calculateProbabilities board_row) own_coord = Some 0" by code_simp
  from analyzeCellRisk_default[OF ok, of foreign_coord] f
  have r1: "riskProbability (analyzeCellRisk foreign_coord board_corner) = 0.5" by blast
  from analyzeCellRisk_default[OF ok2, of own_coord] z
  have r2: "riskProbability (analyzeCellRisk own_coord board_row) = 0.5" by blast
  show ?thesis using ok f e o r1 z r2 by blast
qed


section \<open>Choosing among guaranteed-safe cells\<close>

lemma gain_eq:
  "calculateInformationGain coord b
     = real (unrevealedNeighbours coord b) + real (revealedNeighbours coord b) * 0.5"
  by (simp add: calculateInformationGain_def unrevealedNeighbours_def revealedNeighbours_def Let_def)

lemma best_fold:
  fixes gain :: "key \<Rightarrow> real"
  assumes "snd best = gain (fst best)"
  shows "\<exists>s. fold (\<lambda>mv best. (let g = gain mv in if g > snd best then (mv, g) else best)) others best
              = (s, gain s) \<and> s \<in> set (fst best # others) \<and>
             gain (fst best) \<le> gain s \<and> (\<forall>c\<in>set others. gain c \<le> gain s)"
  using assms
proof (induction others arbitrary: best)
  case Nil
  then show ?case by (cases best) auto
next
  case (Cons mv others)
  define best' where "best' = (if gain mv > snd best then (mv, gain mv) else best)"
  have inv: "snd best' = gain (fst best')" using Cons.prems by (simp add: best'_def)
  obtain s where s: "fold (\<lambda>mv best. (let g = gain mv in if g > snd best then (mv, g) else best)) others best'
              = (s, gain s)" "s \<in> set (fst best' # others)"
             "gain (fst best') \<le> gain s" "\<forall>c\<in>set others. gain c \<le> gain s"
    using Cons.IH[OF inv] by blast
  have "gain mv \<le> gain (fst best')" "gain (fst best) \<le> gain (fst best')" "fst best' \<in> {fst best, mv}"
    using Cons.prems by (auto simp: best'_def)
  then show ?case using s by (auto simp: best'_def Let_def)
qed

lemma selectBestGuaranteedSafe_max:
  "selectBestGuaranteedSafe b first others \<in> set (first # others) \<and>
   (\<forall>c\<in>set (first # others).
      calculateInformationGain c b \<le> calculateInformationGain (selectBestGuaranteedSafe b first others) b)"
proof (cases "others = []")
  case True
  then show ?thesis by (simp add: selectBestGuaranteedSafe_def)
next
  case False
  obtain s where s: "fold (\<lambda>mv best. (let g = calculateInformationGain mv b in if g > snd best then (mv, g) else best))
                 others (first, calculateInformationGain first b) = (s, calculateInformationGain s b)"
      "s \<in> set (first # others)" "calculateInformationGain first b \<le> calculateInformationGain s b"
      "\<forall>c\<in>set others. calculateInformationGain c b \<le> calculateInformationGain s b"
    using best_fold[of "(first, calculateInformationGain first b)" "\<lambda>c. calculateInformationGain c b" others]
    by auto
  have "selectBestGuaranteedSafe b first others = s"
    using False s(1) by (simp add: selectBestGuaranteedSafe_def)
  then show ?thesis using s by auto
qed

text \<open>
  Claim C8, as the code has it. On every board with a guaranteed-safe cell the
  recommended move is a guaranteed-safe candidate of maximal information gain, the gain
  being the number of unrevealed, unflagged neighbours plus half the number of revealed
  neighbours; so a candidate with more unrevealed neighbours than the selected one has
  fewer revealed neighbours.
\<close>

theorem guaranteed_safe_selection:
  assumes "fst (findGuaranteedMoves b) \<noteq> []"
  shows "\<exists>s\<in>set (guaranteedSafe (analyzeBoard b)).
           recommendedMove (analyzeBoard b) = Some s \<and>
           (\<forall>c\<in>set (guaranteedSafe (analyzeBoard b)).
              calculateInformationGain c b \<le> calculateInformationGain s b \<and>
              (unrevealedNeighbours c b > unrevealedNeighbours s b
                 \<longrightarrow> revealedNeighbours c b < revealedNeighbours s b))"
proof -
  obtain first others where fo: "fst (findGuaranteedMoves b) = first # others"
    using assms by (cases "fst (findGuaranteedMoves b)") auto
  define s where "s = selectBestGuaranteedSafe b first others"
  have rec: "recommendedMove (analyzeBoard b) = Some s"
    by (simp add: analyzeBoard_def Let_def getBestMove_def fo s_def)
  have safe: "guaranteedSafe (analyzeBoard b) = first # others"
    by (simp add: analyzeBoard_def Let_def fo)
  have mx: "s \<in> set (first # others)"
    "\<forall>c\<in>set (first # others). calculateInformationGain c b \<le> calculateInformationGain s b"
    using selectBestGuaranteedSafe_max[of b first others] by (simp_all add: s_def)
  have "unrevealedNeighbours c b > unrevealedNeighbours s b \<longrightarrow> revealedNeighbours c b < revealedNeighbours s b"
    if "c \<in> set (first # others)" for c
  proof
    assume m: "unrevealedNeighbours c b > unrevealedNeighbours s b"
    have "calculateInformationGain c b \<le> calculateInformationGain s b" using mx(2) that by blast
    then have "real (unrevealedNeighbours c b) + real (revealedNeighbours c b) * 0.5
                 \<le> real (unrevealedNeighbours s b) + real (revealedNeighbours s b) * 0.5"
      by (simp only: gain_eq)
    moreover have "real (unrevealedNeighbours s b) < real (unrevealedNeighbours c b)" using m by simp
    ultimately have "real (revealedNeighbours c b) < real (revealedNeighbours s b)" by simp
    then show "revealedNeighbours c b < revealedNeighbours s b" by simp
  qed
  then show ?thesis using rec safe mx by auto
qed

theorem guaranteed_safe_selection_witness:
  "fst (findGuaranteedMoves board_hole) = [(1, 1), (3, 0), (3, 1), (3, 2)] \<and>
   recommendedMove (analyzeBoard board_hole) = Some (1, 1) \<and>
   list_all (\<lambda>c. calculateInformationGain c board_hole \<le> calculateInformationGain (1, 1) board_hole)
     (guaranteedSafe (analyzeBoard board_hole)) \<and>
   revealedNeighbours (3, 1) board_hole < revealedNeighbours (1, 1) board_hole"
proof -
  have f: "fst (findGuaranteedMoves board_hole) = [(1, 1), (3, 0), (3, 1), (3, 2)]" by code_simp
  have g: "guaranteedSafe (analyzeBoard board_hole) = [(1, 1), (3, 0), (3, 1), (3, 2)]"
    by (simp add: analyzeBoard_def Let_def f)
  have u: "unrevealedNeighbours (3, 1) board_hole > unrevealedNeighbours (1, 1) board_hole" by code_simp
  have ne: "fst (findGuaranteedMoves board_hole) \<noteq> []" using f by simp
  have r: "recommendedMove (analyzeBoard board_hole) = Some (1, 1)" by code_simp
  from guaranteed_safe_selection[OF ne] r
  have all: "\<forall>c\<in>set (guaranteedSafe (analyzeBoard board_hole)).
              calculateInformationGain c board_hole \<le> calculateInformationGain (1, 1) board_hole \<and>
              (unrevealedNeighbours c board_hole > unrevealedNeighbours (1, 1) board_hole
                 \<longrightarrow> revealedNeighbours c board_hole < revealedNeighbours (1, 1) board_hole)"
    by auto
  then have "list_all (\<lambda>c. calculateInformationGain c board_hole \<le> calculateInformationGain (1, 1) board_hole)
     (guaranteedSafe (analyzeBoard board_hole))" by (simp add: list_all_iff)
  moreover have "revealedNeighbours (3, 1) board_hole < revealedNeighbours (1, 1) board_hole"
    using all u g by simp
  ultimately show ?thesis using f r by simp
qed

text \<open>
  The claim as stated fails on \<open>board_hole\<close>: the candidate \<open>(3, 1)\<close> has two
  unrevealed neighbours and \<open>(1, 1)\<close> has none, and \<open>(1, 1)\<close> is recommended, its eight
  revealed neighbours giving the higher gain.
\<close>

theorem more_unrevealed_not_selected_counterexample:
  "guaranteedSafe (analyzeBoard board_hole) = [(1, 1), (3, 0), (3, 1), (3, 2)] \<and>
   unrevealedNeighbours (1, 1) board_hole = 0 \<and>
   unrevealedNeighbours (3, 1) board_hole = 2 \<and>
   recommendedMove (analyzeBoard board_hole) = Some (1, 1) \<and>
   calculateInformationGain (1, 1) board_hole = 4 \<and>
   calculateInformationGain (3, 1) board_hole = 3.5"
  by code_simp


section \<open>Choosing among probabilistic moves\<close>







section \<open>Guaranteed cells in the probability map\<close>

lemma constraint_keys_constrained:
  assumes "c \<in> set (extractConstraints b)"
  shows "set (map coordToString (affectedCells c)) \<subseteq> set (constrainedKeys b)"
  using assms by (auto simp: constrainedKeys_def set_set_add_all)

lemma simpleRule_within:
  assumes "set (map coordToString (affectedCells c)) \<subseteq> K" "set (fst g) \<union> set (snd g) \<subseteq> K"
  shows "set (fst (simpleRule c g)) \<union> set (snd (simpleRule c g)) \<subseteq> K"
  using assms by (auto simp: simpleRule_def set_set_add_all)

lemma subsetRule_within:
  assumes "set (map coordToString (affectedCells c2)) \<subseteq> K" "set (fst g) \<union> set (snd g) \<subseteq> K"
  shows "set (fst (subsetRule c1 c2 g)) \<union> set (snd (subsetRule c1 c2 g)) \<subseteq> K"
proof -
  define k1 where "k1 = new_Set (map coordToString (affectedCells c1))"
  define k2 where "k2 = new_Set (map coordToString (affectedCells c2))"
  define d where "d = filter (\<lambda>s. s \<notin> set k1) k2"
  define md where "md = requiredMines c2 - requiredMines c1"
  have unfold: "subsetRule c1 c2 g =
      (if isSubset k1 k2
       then (if md = 0 then (set_add_all (fst g) d, snd g)
             else if md = int (length d) \<and> md > 0 then (fst g, set_add_all (snd g) d)
             else g)
       else g)"
    by (simp add: subsetRule_def Let_def k1_def k2_def d_def md_def)
  have "set d \<subseteq> K" using assms(1) by (auto simp: d_def k2_def set_new_Set)
  then show ?thesis using assms(2) unfolding unfold by (auto simp: set_set_add_all)
qed

lemma findGuaranteedMoves_within:
  "set (fst (findGuaranteedMoves b)) \<union> set (snd (findGuaranteedMoves b)) \<subseteq> set (constrainedKeys b)"
proof -
  define K where "K = set (constrainedKeys b)"
  define cs where "cs = extractConstraints b"
  have sub: "\<forall>c\<in>set cs. set (map coordToString (affectedCells c)) \<subseteq> K"
    using constraint_keys_constrained by (simp add: cs_def K_def)
  have s1: "set (fst (fold simpleRule xs g)) \<union> set (snd (fold simpleRule xs g)) \<subseteq> K"
    if "set xs \<subseteq> set cs" "set (fst g) \<union> set (snd g) \<subseteq> K" for xs g
    using that
  proof (induction xs arbitrary: g)
    case Nil
    then show ?case by simp
  next
    case (Cons x xs)
    have "set (fst (simpleRule x g)) \<union> set (snd (simpleRule x g)) \<subseteq> K"
      using Cons.prems sub by (intro simpleRule_within) auto
    then show ?case using Cons by simp
  qed
  have s2: "set (fst (fold (\<lambda>j acc. if i = j then acc else subsetRule (cs ! i) (cs ! j) acc) js g)) \<union>
            set (snd (fold (\<lambda>j acc. if i = j then acc else subsetRule (cs ! i) (cs ! j) acc) js g)) \<subseteq> K"
    if "set js \<subseteq> {..<length cs}" "set (fst g) \<union> set (snd g) \<subseteq> K" for i js g
    using that
  proof (induction js arbitrary: g)
    case Nil
    then show ?case by simp
  next
    case (Cons j js)
    have "cs ! j \<in> set cs" using Cons.prems(1) by auto
    then have "set (fst (subsetRule (cs ! i) (cs ! j) g)) \<union> set (snd (subsetRule (cs ! i) (cs ! j) g)) \<subseteq> K"
      using Cons.prems(2) sub by (intro subsetRule_within) auto
    then show ?case using Cons by simp
  qed
  have s3: "set (fst (fold (\<lambda>i. fold (\<lambda>j acc. if i = j then acc else subsetRule (cs ! i) (cs ! j) acc)
                    [0..<length cs]) is g)) \<union>
            set (snd (fold (\<lambda>i. fold (\<lambda>j acc. if i = j then acc else subsetRule (cs ! i) (cs ! j) acc)
                    [0..<length cs]) is g)) \<subseteq> K"
    if "set (fst g) \<union> set (snd g) \<subseteq> K" for "is" g
    using that
  proof (induction "is" arbitrary: g)
    case Nil
    then show ?case by simp
  next
    case (Cons i "is")
    have "set [0..<length cs] \<subseteq> {..<length cs}" by auto
    then have "set (fst (fold (\<lambda>j acc. if i = j then acc else subsetRule (cs ! i) (cs ! j) acc) [0..<length cs] g)) \<union>
            set (snd (fold (\<lambda>j acc. if i = j then acc else subsetRule (cs ! i) (cs ! j) acc) [0..<length cs] g)) \<subseteq> K"
      using Cons.prems by (rule s2)
    then show ?case using Cons.IH by simp
  qed
  have "set (fst (fold simpleRule cs ([], []))) \<union> set (snd (fold simpleRule cs ([], []))) \<subseteq> K"
    by (rule s1) simp_all
  then show ?thesis
    unfolding findGuaranteedMoves_def Let_def subsetPass_def cs_def[symmetric] K_def[symmetric]
    by (rule s3)
qed

lemma valid_satisfies:
  assumes "a \<in> set (generateValidAssignments cs cells)" "c \<in> set cs"
  shows "satisfies (\<lambda>k. map_of a k = Some True) c"
  using assms
  by (auto simp: generateValidAssignments_def Let_def isValidAssignment_def list_all_iff satisfies_def)

lemma marginal_guaranteed:
  assumes "board_ok b"
  shows "(k \<in> set (fst (findGuaranteedMoves b)) \<and> coordToString c = k \<and> consistentFound b
            \<longrightarrow> marginal (extractConstraints b) (constrainedCoords b) c = 0) \<and>
         (k \<in> set (snd (findGuaranteedMoves b)) \<and> coordToString c = k \<and> consistentFound b
            \<longrightarrow> marginal (extractConstraints b) (constrainedCoords b) c = 1)"
proof -
  define V where "V = generateValidAssignments (extractConstraints b) (constrainedCoords b)"
  have snd: "sound (\<lambda>k. map_of a k = Some True) (findGuaranteedMoves b)" if "a \<in> set V" for a
    using that valid_satisfies[of a "extractConstraints b" "constrainedCoords b"]
    by (intro findGuaranteedMoves_invariant[OF assms]) (auto simp: V_def)
  have safe: "filter (\<lambda>a. map_of a k = Some True) V = []" if "k \<in> set (fst (findGuaranteedMoves b))"
    using snd that by (auto simp: sound_def filter_empty_conv)
  have mine: "filter (\<lambda>a. map_of a k = Some True) V = V" if "k \<in> set (snd (findGuaranteedMoves b))"
    using snd that by (auto simp: sound_def filter_id_conv)
  show ?thesis
    using safe mine
    by (auto simp: marginal_def Let_def consistentFound_def V_def[symmetric])
qed

text \<open>
  Claim C4, as the code has it. In the map returned by \<open>analyzeBoard\<close>, a guaranteed-safe
  cell has probability 0 and a guaranteed mine has probability 1 times the factor of
  \<open>handleEdgeCases\<close> (in the early game 0.8 in a corner and 0.9 on an edge, else 1),
  whenever the enumeration finds a valid assignment; when it finds none, both have 0.5
  times that factor. The adjustment never changes a probability of 0.
\<close>

theorem guaranteed_cells_probability:
  assumes "board_ok b" and "(c, p) \<in> set (probabilities (analyzeBoard b))"
  shows "(coordToString c \<in> set (guaranteedSafe (analyzeBoard b))
            \<longrightarrow> p = (if consistentFound b then 0 else 0.5 * earlyFactor b c)) \<and>
         (coordToString c \<in> set (guaranteedMines (analyzeBoard b))
            \<longrightarrow> p = (if consistentFound b then earlyFactor b c else 0.5 * earlyFactor b c))"
proof -
  have p: "p = cellProb b c * earlyFactor b c"
    using assms(2) by (auto simp: analyzeBoard_probabilities[OF assms(1)] tabulate_def earlyFactor_def)
  have g: "guaranteedSafe (analyzeBoard b) = fst (findGuaranteedMoves b)"
          "guaranteedMines (analyzeBoard b) = snd (findGuaranteedMoves b)"
    by (simp_all add: analyzeBoard_def Let_def)
  have cp: "cellProb b c = marginal (extractConstraints b) (constrainedCoords b) c"
    if "coordToString c \<in> set (fst (findGuaranteedMoves b)) \<union> set (snd (findGuaranteedMoves b))"
    using that findGuaranteedMoves_within[of b] by (auto simp: cellProb_def)
  have half: "marginal (extractConstraints b) (constrainedCoords b) c = 0.5" if "\<not> consistentFound b"
    using that by (simp add: marginal_def Let_def consistentFound_def)
  show ?thesis
    using p g cp half marginal_guaranteed[OF assms(1), of "coordToString c" c]
    by auto
qed

theorem guaranteed_cells_probability_witness:
  "board_ok board_three \<and> consistentFound board_three \<and>
   guaranteedMines (analyzeBoard board_three) = [(1, 0), (0, 1), (1, 1)] \<and>
   (\<lparr>coord_id = 1, coord_x = 1, coord_y = 0\<rparr>, 9 / 10) \<in> set (probabilities (analyzeBoard board_three)) \<and>
   earlyFactor board_three \<lparr>coord_id = 1, coord_x = 1, coord_y = 0\<rparr> = 9 / 10 \<and>
   (\<lparr>coord_id = 5, coord_x = 1, coord_y = 1\<rparr>, 1) \<in> set (probabilities (analyzeBoard board_three)) \<and>
   earlyFactor board_three \<lparr>coord_id = 5, coord_x = 1, coord_y = 1\<rparr> = 1"
proof -
  have ok: "board_ok board_three" by code_simp
  have cf: "consistentFound board_three" by code_simp
  have gm: "guaranteedMines (analyzeBoard board_three) = [(1, 0), (0, 1), (1, 1)]" by code_simp
  have e1: "(\<lparr>coord_id = 1, coord_x = 1, coord_y = 0\<rparr>, 9 / 10) \<in> set (probabilities (analyzeBoard board_three))"
    by code_simp
  have e2: "(\<lparr>coord_id = 5, coord_x = 1, coord_y = 1\<rparr>, 1) \<in> set (probabilities (analyzeBoard board_three))"
    by code_simp
  have k: "coordToString \<lparr>coord_id = 1, coord_x = 1, coord_y = 0\<rparr> = (1, 0)"
          "coordToString \<lparr>coord_id = 5, coord_x = 1, coord_y = 1\<rparr> = (1, 1)"
    by (simp_all add: coordToString_def)
  from guaranteed_cells_probability[OF ok e1] cf gm k
  have f1: "earlyFactor board_three \<lparr>coord_id = 1, coord_x = 1, coord_y = 0\<rparr> = 9 / 10" by simp
  from guaranteed_cells_probability[OF ok e2] cf gm k
  have f2: "earlyFactor board_three \<lparr>coord_id = 5, coord_x = 1, coord_y = 1\<rparr> = 1" by simp
  show ?thesis using ok cf gm e1 e2 f1 f2 by blast
qed

text \<open>
  The claim as stated fails on \<open>board_three\<close>, one revealed cell out of twelve: the
  neighbours \<open>(1, 0)\<close> and \<open>(0, 1)\<close> of the corner are guaranteed mines with marginal 1,
  and the returned map gives them 0.9.
\<close>

theorem guaranteed_mine_rescaled_counterexample:
  "board_ok board_three \<and>
   guaranteedMines (analyzeBoard board_three) = [(1, 0), (0, 1), (1, 1)] \<and>
   map (\<lambda>e. (coordToString (fst e), snd e)) (take 3 (probabilities (analyzeBoard board_three)))
     = [((1, 0), 9 / 10), ((0, 1), 9 / 10), ((1, 1), 1)] \<and>
   map snd (take 3 (calculateProbabilities board_three)) = [1, 1, 1]"
  by code_simp


section \<open>Independent components of the frontier\<close>


lemma isMineBit_bit:
  assumes "j < 32" "i < 2 ^ 32"
  shows "isMineBit i j \<longleftrightarrow> bit i j"
proof -
  have "isMineBit i j \<longleftrightarrow> bit (word_of_nat i :: 32 word) j"
    using assms(1) by (simp add: isMineBit_def push_bit_of_1 and_exp_eq_0_iff_not_bit)
  also have "\<dots> \<longleftrightarrow> bit i j"
    using assms(1) by (simp add: bit_of_nat_iff)
  finally show ?thesis .
qed

lemma obj_set_new: "k \<notin> fst ` set a \<Longrightarrow> obj_set a k v = a @ [(k, v)]"
  by (simp add: obj_set_def)

lemma assignmentOf_distinct_keys:
  assumes "distinct ks"
  shows "assignmentOf ks i = map (\<lambda>j. (ks ! j, isMineBit i j)) [0..<length ks]"
proof -
  have "m \<le> length ks \<Longrightarrow>
        fold (\<lambda>j a. obj_set a (ks ! j) (isMineBit i j)) [0..<m] []
          = map (\<lambda>j. (ks ! j, isMineBit i j)) [0..<m]" for m
  proof (induction m)
    case 0
    then show ?case by simp
  next
    case (Suc m)
    have "ks ! m \<notin> fst ` set (map (\<lambda>j. (ks ! j, isMineBit i j)) [0..<m])"
    proof
      assume "ks ! m \<in> fst ` set (map (\<lambda>j. (ks ! j, isMineBit i j)) [0..<m])"
      then obtain j where "j < m" "ks ! j = ks ! m" by (auto simp: image_iff)
      then show False using assms Suc.prems by (simp add: nth_eq_iff_index_eq)
    qed
    then show ?case using Suc by (simp add: obj_set_new)
  qed
  then show ?thesis by (simp add: assignmentOf_def)
qed

lemma mineSet_iff: "k \<in> mineSet ks i \<longleftrightarrow> (\<exists>j<length ks. ks ! j = k \<and> bit i j)"
proof (induction ks arbitrary: i)
  case Nil
  then show ?case by simp
next
  case (Cons a ks)
  have "(\<exists>j<length (a # ks). (a # ks) ! j = k \<and> bit i j)
          \<longleftrightarrow> (a = k \<and> odd i) \<or> (\<exists>j<length ks. ks ! j = k \<and> bit (i div 2) j)"
  proof
    assume "\<exists>j<length (a # ks). (a # ks) ! j = k \<and> bit i j"
    then obtain j where j: "j < length (a # ks)" "(a # ks) ! j = k" "bit i j" by blast
    show "(a = k \<and> odd i) \<or> (\<exists>j<length ks. ks ! j = k \<and> bit (i div 2) j)"
    proof (cases j)
      case 0
      then show ?thesis using j by (simp add: bit_0)
    next
      case (Suc j')
      then show ?thesis using j by (auto simp: bit_Suc)
    qed
  next
    assume "(a = k \<and> odd i) \<or> (\<exists>j<length ks. ks ! j = k \<and> bit (i div 2) j)"
    then show "\<exists>j<length (a # ks). (a # ks) ! j = k \<and> bit i j"
    proof
      assume "a = k \<and> odd i"
      then have "0 < length (a # ks) \<and> (a # ks) ! 0 = k \<and> bit i 0" by (simp add: bit_0)
      then show ?thesis by blast
    next
      assume "\<exists>j<length ks. ks ! j = k \<and> bit (i div 2) j"
      then obtain j where "j < length ks" "ks ! j = k" "bit (i div 2) j" by blast
      then have "Suc j < length (a # ks) \<and> (a # ks) ! Suc j = k \<and> bit i (Suc j)"
        by (simp add: bit_Suc)
      then show ?thesis by blast
    qed
  qed
  then show ?case using Cons.IH[of "i div 2"] by auto
qed

lemma assignment_mine:
  assumes "distinct ks" "length ks \<le> 19" "i < 2 ^ length ks"
  shows "map_of (assignmentOf ks i) k = Some True \<longleftrightarrow> k \<in> mineSet ks i"
proof -
  have "(2::nat) ^ length ks \<le> 2 ^ 32" using assms(2) by (intro power_increasing) auto
  then have i: "i < 2 ^ 32" using assms(3) by linarith
  have bits: "j < length ks \<Longrightarrow> isMineBit i j = bit i j" for j
    using assms(2) i by (intro isMineBit_bit) auto
  let ?a = "map (\<lambda>j. (ks ! j, isMineBit i j)) [0..<length ks]"
  have d: "distinct (map fst ?a)"
    using assms(1) by (simp add: o_def map_nth)
  have "map_of ?a k = Some True \<longleftrightarrow> (k, True) \<in> set ?a"
    using d by (rule map_of_eq_Some_iff)
  also have "\<dots> \<longleftrightarrow> (\<exists>j<length ks. ks ! j = k \<and> bit i j)"
    using bits by (auto simp: image_iff)
  finally show ?thesis
    by (simp add: assignmentOf_distinct_keys[OF assms(1)] mineSet_iff)
qed



lemma count_even_odd:
  "length (filter P [0..<2 * m])
     = length (filter (\<lambda>i. P (2 * i)) [0..<m]) + length (filter (\<lambda>i. P (2 * i + 1)) [0..<m])"
proof (induction m)
  case 0
  show ?case by simp
next
  case (Suc m)
  have "[0..<2 * Suc m] = [0..<2 * m] @ [2 * m, 2 * m + 1]" by simp
  then show ?case using Suc by simp
qed

lemma pow_insert_card:
  assumes "finite K" "k \<notin> K"
  shows "card {T. T \<subseteq> insert k K \<and> Q T}
           = card {T. T \<subseteq> K \<and> Q T} + card {T. T \<subseteq> K \<and> Q (insert k T)}"
proof -
  define A where "A = {T. T \<subseteq> K \<and> Q T}"
  define B where "B = {T. T \<subseteq> K \<and> Q (insert k T)}"
  have fin: "finite A" "finite B" using assms(1) by (simp_all add: A_def B_def)
  have split: "{T. T \<subseteq> insert k K \<and> Q T} = A \<union> insert k ` B"
  proof (rule set_eqI)
    fix T
    show "T \<in> {T. T \<subseteq> insert k K \<and> Q T} \<longleftrightarrow> T \<in> A \<union> insert k ` B"
    proof
      assume T: "T \<in> {T. T \<subseteq> insert k K \<and> Q T}"
      show "T \<in> A \<union> insert k ` B"
      proof (cases "k \<in> T")
        case True
        then have eq: "insert k (T - {k}) = T" by auto
        have "T - {k} \<subseteq> K" using T by auto
        moreover have "Q (insert k (T - {k}))" using T eq by simp
        ultimately have "T - {k} \<in> B" by (simp add: B_def)
        then have "insert k (T - {k}) \<in> insert k ` B" by (rule imageI)
        then show ?thesis using eq by simp
      next
        case False
        then have "T \<subseteq> K" using T by auto
        then show ?thesis using T by (simp add: A_def)
      qed
    next
      assume "T \<in> A \<union> insert k ` B"
      then show "T \<in> {T. T \<subseteq> insert k K \<and> Q T}" by (auto simp: A_def B_def)
    qed
  qed
  have disj: "A \<inter> insert k ` B = {}" using assms(2) by (auto simp: A_def)
  have inj: "inj_on (insert k) B"
  proof (rule inj_onI)
    fix T1 T2 assume "T1 \<in> B" "T2 \<in> B" and eq: "insert k T1 = insert k T2"
    then have "k \<notin> T1" "k \<notin> T2" using assms(2) by (auto simp: B_def)
    then show "T1 = T2" using eq by (metis insert_ident)
  qed
  have "card (A \<union> insert k ` B) = card A + card (insert k ` B)"
    using fin disj by (intro card_Un_disjoint) auto
  also have "card (insert k ` B) = card B" using inj by (rule card_image)
  finally show ?thesis unfolding split A_def B_def .
qed

lemma mineSet_count:
  assumes "distinct ks"
  shows "length (filter (\<lambda>i. Q (mineSet ks i)) [0..<2 ^ length ks]) = card {T. T \<subseteq> set ks \<and> Q T}"
  using assms
proof (induction ks arbitrary: Q)
  case Nil
  have "{T::key set. T \<subseteq> {} \<and> Q T} = (if Q {} then {{}} else {})" by auto
  then show ?case by simp
next
  case (Cons k ks)
  have d: "distinct ks" and k: "k \<notin> set ks" using Cons.prems by auto
  have "length (filter (\<lambda>i. Q (mineSet (k # ks) i)) [0..<2 ^ length (k # ks)])
          = length (filter (\<lambda>i. Q (mineSet (k # ks) i)) [0..<2 * 2 ^ length ks])"
    by simp
  also have "\<dots> = length (filter (\<lambda>i. Q (mineSet (k # ks) (2 * i))) [0..<2 ^ length ks])
                  + length (filter (\<lambda>i. Q (mineSet (k # ks) (2 * i + 1))) [0..<2 ^ length ks])"
    by (rule count_even_odd)
  also have "\<dots> = length (filter (\<lambda>i. Q (mineSet ks i)) [0..<2 ^ length ks])
                  + length (filter (\<lambda>i. Q (insert k (mineSet ks i))) [0..<2 ^ length ks])"
    by simp
  also have "\<dots> = card {T. T \<subseteq> set ks \<and> Q T} + card {T. T \<subseteq> set ks \<and> Q (insert k T)}"
    using Cons.IH[OF d, of Q] Cons.IH[OF d, of "\<lambda>T. Q (insert k T)"] by simp
  also have "\<dots> = card {T. T \<subseteq> insert k (set ks) \<and> Q T}"
    using k by (intro pow_insert_card[symmetric]) auto
  finally show ?case by simp
qed



lemma valid_iff_satAll:
  assumes "distinct ks" "length ks \<le> 19" "i < 2 ^ length ks"
  shows "isValidAssignment (assignmentOf ks i) cs \<longleftrightarrow> satAll cs (mineSet ks i)"
  by (simp add: isValidAssignment_def list_all_iff satAll_def satisfies_def
      assignment_mine[OF assms])

lemma generate_complete:
  assumes "length cells \<le> 19"
  shows "generateValidAssignments cs cells
           = filter (\<lambda>a. isValidAssignment a cs)
               (map (assignmentOf (map coordToString cells)) [0..<2 ^ length cells])"
proof -
  have "(2::nat) ^ length cells \<le> 2 ^ 19" using assms by (intro power_increasing) auto
  then have "min ((2::nat) ^ length cells) 1000000 = 2 ^ length cells" by simp
  then show ?thesis by (simp add: generateValidAssignments_def Let_def)
qed

lemma generated_count:
  assumes "distinct (map coordToString cells)" "length cells \<le> 19"
  shows "length (filter R (generateValidAssignments cs cells))
           = length (filter (\<lambda>i. satAll cs (mineSet (map coordToString cells) i) \<and>
                                  R (assignmentOf (map coordToString cells) i))
                       [0..<2 ^ length cells])"
proof -
  define ks where "ks = map coordToString cells"
  have len: "length ks = length cells" by (simp add: ks_def)
  have "filter R (generateValidAssignments cs cells)
          = map (assignmentOf ks)
              (filter (\<lambda>i. isValidAssignment (assignmentOf ks i) cs \<and> R (assignmentOf ks i))
                 [0..<2 ^ length cells])"
    by (simp add: generate_complete[OF assms(2)] ks_def filter_map o_def conj_commute)
  also have "filter (\<lambda>i. isValidAssignment (assignmentOf ks i) cs \<and> R (assignmentOf ks i))
                 [0..<2 ^ length cells]
           = filter (\<lambda>i. satAll cs (mineSet ks i) \<and> R (assignmentOf ks i)) [0..<2 ^ length cells]"
  proof (rule filter_cong[OF refl])
    fix i assume "i \<in> set [0..<2 ^ length cells]"
    then have "i < 2 ^ length ks" by (simp add: len)
    then show "(isValidAssignment (assignmentOf ks i) cs \<and> R (assignmentOf ks i))
             = (satAll cs (mineSet ks i) \<and> R (assignmentOf ks i))"
      using valid_iff_satAll[of ks i cs] assms by (simp add: ks_def)
  qed
  finally show ?thesis by (simp add: ks_def)
qed

lemma valid_count:
  assumes "distinct (map coordToString cells)" "length cells \<le> 19"
  shows "length (generateValidAssignments cs cells)
           = card (validSets cs (coordToString ` set cells))"
proof -
  have "length (generateValidAssignments cs cells)
          = length (filter (\<lambda>i. satAll cs (mineSet (map coordToString cells) i))
                              [0..<2 ^ length (map coordToString cells)])"
    using generated_count[OF assms, of "\<lambda>a. True" cs] by simp
  also have "\<dots> = card {T. T \<subseteq> set (map coordToString cells) \<and> satAll cs T}"
    using assms(1) by (rule mineSet_count)
  finally show ?thesis by (simp add: validSets_def)
qed

lemma mine_count:
  assumes "distinct (map coordToString cells)" "length cells \<le> 19"
  shows "length (filter (\<lambda>a. map_of a k = Some True) (generateValidAssignments cs cells))
           = card {T \<in> validSets cs (coordToString ` set cells). k \<in> T}"
proof -
  define ks where "ks = map coordToString cells"
  have len: "length ks = length cells" by (simp add: ks_def)
  have "length (filter (\<lambda>a. map_of a k = Some True) (generateValidAssignments cs cells))
          = length (filter (\<lambda>i. satAll cs (mineSet ks i) \<and> map_of (assignmentOf ks i) k = Some True)
                      [0..<2 ^ length cells])"
    unfolding ks_def by (rule generated_count[OF assms])
  also have "filter (\<lambda>i. satAll cs (mineSet ks i) \<and> map_of (assignmentOf ks i) k = Some True)
                      [0..<2 ^ length cells]
           = filter (\<lambda>i. satAll cs (mineSet ks i) \<and> k \<in> mineSet ks i) [0..<2 ^ length ks]"
    unfolding len
  proof (rule filter_cong[OF refl])
    fix i assume "i \<in> set [0..<2 ^ length cells]"
    then have "i < 2 ^ length ks" by (simp add: len)
    then show "(satAll cs (mineSet ks i) \<and> map_of (assignmentOf ks i) k = Some True)
             = (satAll cs (mineSet ks i) \<and> k \<in> mineSet ks i)"
      using assignment_mine[of ks i k] assms by (simp add: ks_def)
  qed
  also have "length (filter (\<lambda>i. satAll cs (mineSet ks i) \<and> k \<in> mineSet ks i) [0..<2 ^ length ks])
           = card {T. T \<subseteq> set ks \<and> (satAll cs T \<and> k \<in> T)}"
    using assms(1) unfolding ks_def by (rule mineSet_count)
  finally show ?thesis by (auto simp: validSets_def ks_def intro: arg_cong[where f = card])
qed

lemma marginal_card:
  assumes "distinct (map coordToString cells)" "length cells \<le> 19"
  shows "marginal cs cells c
           = (if card (validSets cs (coordToString ` set cells)) = 0 then 0.5
              else real (card {T \<in> validSets cs (coordToString ` set cells). coordToString c \<in> T})
                     / real (card (validSets cs (coordToString ` set cells))))"
proof -
  have "generateValidAssignments cs cells = [] \<longleftrightarrow> card (validSets cs (coordToString ` set cells)) = 0"
    using valid_count[OF assms, of cs] by auto
  then show ?thesis
    by (simp add: marginal_def Let_def valid_count[OF assms] mine_count[OF assms])
qed



lemma satisfies_restrict:
  assumes "coordToString ` set (affectedCells c) \<subseteq> K"
  shows "satisfies (\<lambda>k. k \<in> T \<inter> K) c \<longleftrightarrow> satisfies (\<lambda>k. k \<in> T) c"
proof -
  have "filter (\<lambda>coord. coordToString coord \<in> T \<inter> K) (affectedCells c)
          = filter (\<lambda>coord. coordToString coord \<in> T) (affectedCells c)"
    using assms by (intro filter_cong) auto
  then show ?thesis by (simp add: satisfies_def)
qed

lemma satAll_split:
  assumes "set cs = set cs1 \<union> set cs2"
    and "\<forall>c\<in>set cs1. coordToString ` set (affectedCells c) \<subseteq> K1"
    and "\<forall>c\<in>set cs2. coordToString ` set (affectedCells c) \<subseteq> K2"
  shows "satAll cs T \<longleftrightarrow> satAll cs1 (T \<inter> K1) \<and> satAll cs2 (T \<inter> K2)"
  using assms satisfies_restrict by (auto simp: satAll_def)

lemma product_card:
  fixes K1 K2 :: "'a set"
  assumes "finite K1" "finite K2" "K1 \<inter> K2 = {}"
  shows "card {T. T \<subseteq> K1 \<union> K2 \<and> R1 (T \<inter> K1) \<and> R2 (T \<inter> K2)}
           = card {T. T \<subseteq> K1 \<and> R1 T} * card {T. T \<subseteq> K2 \<and> R2 T}"
proof -
  define A where "A = {T. T \<subseteq> K1 \<and> R1 T}"
  define B where "B = {T. T \<subseteq> K2 \<and> R2 T}"
  define C where "C = {T. T \<subseteq> K1 \<union> K2 \<and> R1 (T \<inter> K1) \<and> R2 (T \<inter> K2)}"
  define f where "f = (\<lambda>p::'a set \<times> 'a set. fst p \<union> snd p)"
  have restrict: "(T1 \<union> T2) \<inter> K1 = T1" "(T1 \<union> T2) \<inter> K2 = T2" if "T1 \<subseteq> K1" "T2 \<subseteq> K2" for T1 T2
    using that assms(3) by auto
  have img: "f ` (A \<times> B) = C"
  proof (rule set_eqI)
    fix T
    show "T \<in> f ` (A \<times> B) \<longleftrightarrow> T \<in> C"
    proof
      assume "T \<in> f ` (A \<times> B)"
      then obtain T1 T2 where t: "T1 \<in> A" "T2 \<in> B" "T = T1 \<union> T2" by (auto simp: f_def)
      then have "T1 \<subseteq> K1" "T2 \<subseteq> K2" "R1 T1" "R2 T2" by (auto simp: A_def B_def)
      then show "T \<in> C" using restrict[of T1 T2] t(3) by (auto simp: C_def)
    next
      assume "T \<in> C"
      then have "T \<inter> K1 \<in> A" "T \<inter> K2 \<in> B" "T = (T \<inter> K1) \<union> (T \<inter> K2)"
        by (auto simp: A_def B_def C_def)
      then have "(T \<inter> K1, T \<inter> K2) \<in> A \<times> B" "T = f (T \<inter> K1, T \<inter> K2)" by (auto simp: f_def)
      then show "T \<in> f ` (A \<times> B)" by blast
    qed
  qed
  have inj: "inj_on f (A \<times> B)"
  proof (rule inj_onI)
    fix p q assume p: "p \<in> A \<times> B" and q: "q \<in> A \<times> B" and eq: "f p = f q"
    have "fst p \<subseteq> K1" "snd p \<subseteq> K2" "fst q \<subseteq> K1" "snd q \<subseteq> K2"
      using p q by (auto simp: A_def B_def)
    then have "fst p = f p \<inter> K1" "snd p = f p \<inter> K2" "fst q = f q \<inter> K1" "snd q = f q \<inter> K2"
      using restrict by (simp_all add: f_def)
    then show "p = q" using eq by (simp add: prod_eq_iff)
  qed
  have "card C = card (A \<times> B)" using card_image[OF inj] img by simp
  then show ?thesis by (simp add: card_cartesian_product A_def B_def C_def)
qed

lemma marginal_component:
  assumes dk: "distinct (map coordToString cells)" and n: "length cells \<le> 19"
    and dk1: "distinct (map coordToString cells1)" and n1: "length cells1 \<le> 19"
    and part: "coordToString ` set cells = coordToString ` set cells1 \<union> K2"
    and disj: "coordToString ` set cells1 \<inter> K2 = {}"
    and cs: "set cs = set cs1 \<union> set cs2"
    and a1: "\<forall>c\<in>set cs1. coordToString ` set (affectedCells c) \<subseteq> coordToString ` set cells1"
    and a2: "\<forall>c\<in>set cs2. coordToString ` set (affectedCells c) \<subseteq> K2"
    and found: "generateValidAssignments cs cells \<noteq> []"
    and c: "c \<in> set cells1"
  shows "marginal cs cells c = marginal cs1 cells1 c"
proof -
  define K where "K = coordToString ` set cells"
  define K1 where "K1 = coordToString ` set cells1"
  define k where "k = coordToString c"
  have "finite (coordToString ` set cells)" by simp
  then have "finite (K1 \<union> K2)" unfolding part K1_def .
  then have fin: "finite K1" "finite K2" by simp_all
  have d: "K1 \<inter> K2 = {}" using disj by (simp add: K1_def)
  have kK1: "k \<in> K1" using c by (simp add: k_def K1_def)
  have KK: "K = K1 \<union> K2" using part by (simp add: K_def K1_def)
  have split: "satAll cs T \<longleftrightarrow> satAll cs1 (T \<inter> K1) \<and> satAll cs2 (T \<inter> K2)" for T
    using satAll_split[OF cs] a1 a2 by (simp add: K1_def)
  have N: "card (validSets cs K) = card (validSets cs1 K1) * card (validSets cs2 K2)"
  proof -
    have "validSets cs K = {T. T \<subseteq> K1 \<union> K2 \<and> satAll cs1 (T \<inter> K1) \<and> satAll cs2 (T \<inter> K2)}"
      using split by (simp add: validSets_def KK)
    then show ?thesis
      using product_card[OF fin d, of "satAll cs1" "satAll cs2"] by (simp add: validSets_def)
  qed
  have Nk: "card {T \<in> validSets cs K. k \<in> T}
              = card {T \<in> validSets cs1 K1. k \<in> T} * card (validSets cs2 K2)"
  proof -
    have "{T \<in> validSets cs K. k \<in> T}
            = {T. T \<subseteq> K1 \<union> K2 \<and> (satAll cs1 (T \<inter> K1) \<and> k \<in> T \<inter> K1) \<and> satAll cs2 (T \<inter> K2)}"
      using split kK1 by (auto simp: validSets_def KK)
    moreover have "{T \<in> validSets cs1 K1. k \<in> T} = {T. T \<subseteq> K1 \<and> (satAll cs1 T \<and> k \<in> T)}"
      by (auto simp: validSets_def)
    ultimately show ?thesis
      using product_card[OF fin d, of "\<lambda>T. satAll cs1 T \<and> k \<in> T" "satAll cs2"]
      by (simp add: validSets_def)
  qed
  have "length (generateValidAssignments cs cells) \<noteq> 0" using found by simp
  then have nzK: "card (validSets cs K) \<noteq> 0"
    unfolding valid_count[OF dk n] K_def .
  then have nz: "card (validSets cs1 K1) \<noteq> 0" "card (validSets cs2 K2) \<noteq> 0"
    using N by auto
  have "marginal cs cells c
          = real (card {T \<in> validSets cs K. k \<in> T}) / real (card (validSets cs K))"
    using nzK by (simp add: marginal_card[OF dk n] K_def k_def)
  also have "\<dots> = real (card {T \<in> validSets cs1 K1. k \<in> T}) / real (card (validSets cs1 K1))"
    using nz by (simp add: N Nk)
  also have "\<dots> = marginal cs1 cells1 c"
    using nz(1) by (simp add: marginal_card[OF dk1 n1] K1_def k_def)
  finally show ?thesis .
qed



lemma map_get_tabulate:
  assumes "distinct (ids cs)" "c \<in> set cs"
  shows "map_get (tabulate cs f) c = Some (f c)"
  using assms
proof (induction cs)
  case Nil
  then show ?case by simp
next
  case (Cons a cs)
  show ?case
  proof (cases "a = c")
    case True
    then show ?thesis by (simp add: tabulate_def)
  next
    case False
    then have c: "c \<in> set cs" using Cons.prems by auto
    then have "coord_id a \<noteq> coord_id c" using Cons.prems(1) by (auto simp: ids_def)
    moreover have "map_get (tabulate cs f) c = Some (f c)"
      using Cons.IH c Cons.prems(1) by (simp add: ids_def)
    ultimately show ?thesis by (simp add: tabulate_def)
  qed
qed

lemma constrained_lookup:
  assumes "distinct (ids cells)" "c \<in> set cells"
  shows "map_get (calculateConstrainedProbabilities cs cells) c = Some (marginal cs cells c)"
  using assms by (simp add: constrained_tabulate map_get_tabulate)

text \<open>
  Claim C7, as the code has it. Let the constrained cells (at most 19, so that the
  enumeration is complete) and the constraints split into two components that share no
  affected cell. If the joint enumeration finds a valid assignment, the probability
  \<open>calculateConstrainedProbabilities\<close> gives each cell on the whole frontier is the one
  it gives on the cell's own component.
\<close>

theorem joint_equals_separate:
  assumes "distinct (ids cells)" and "distinct (map coordToString cells)" and "length cells \<le> 19"
    and "cells1 = filter (\<lambda>c. coordToString c \<in> K1) cells"
    and "cells2 = filter (\<lambda>c. coordToString c \<notin> K1) cells"
    and "set cs = set cs1 \<union> set cs2"
    and "\<forall>c\<in>set cs1. coordToString ` set (affectedCells c) \<subseteq> coordToString ` set cells1"
    and "\<forall>c\<in>set cs2. coordToString ` set (affectedCells c) \<subseteq> coordToString ` set cells2"
    and "generateValidAssignments cs cells \<noteq> []"
  shows "(\<forall>c\<in>set cells1. map_get (calculateConstrainedProbabilities cs cells) c
                           = map_get (calculateConstrainedProbabilities cs1 cells1) c) \<and>
         (\<forall>c\<in>set cells2. map_get (calculateConstrainedProbabilities cs cells) c
                           = map_get (calculateConstrainedProbabilities cs2 cells2) c)"
proof -
  have d1: "distinct (ids cells1)" "distinct (ids cells2)"
    using assms(1) unfolding assms(4,5) ids_def by (intro distinct_map_filter, assumption)+
  have k1: "distinct (map coordToString cells1)" "distinct (map coordToString cells2)"
    using assms(2) unfolding assms(4,5) by (intro distinct_map_filter, assumption)+
  have n1: "length cells1 \<le> 19" "length cells2 \<le> 19"
    using assms(3) le_trans[OF length_filter_le] unfolding assms(4,5) by blast+
  have part: "coordToString ` set cells = coordToString ` set cells1 \<union> coordToString ` set cells2"
    unfolding assms(4,5) by auto
  have part': "coordToString ` set cells = coordToString ` set cells2 \<union> coordToString ` set cells1"
    using part by auto
  have disj: "coordToString ` set cells1 \<inter> coordToString ` set cells2 = {}"
    unfolding assms(4,5) by auto
  have disj': "coordToString ` set cells2 \<inter> coordToString ` set cells1 = {}"
    using disj by auto
  have cs': "set cs = set cs2 \<union> set cs1" using assms(6) by auto
  have sub: "set cells1 \<subseteq> set cells" "set cells2 \<subseteq> set cells" unfolding assms(4,5) by auto
  have m1: "marginal cs cells c = marginal cs1 cells1 c" if "c \<in> set cells1" for c
    using assms(2,3) k1(1) n1(1) part disj assms(6,7,8,9) that by (rule marginal_component)
  have m2: "marginal cs cells c = marginal cs2 cells2 c" if "c \<in> set cells2" for c
    using assms(2,3) k1(2) n1(2) part' disj' cs' assms(8,7,9) that by (rule marginal_component)
  show ?thesis
    using m1 m2 sub constrained_lookup[OF assms(1)] constrained_lookup[OF d1(1)]
      constrained_lookup[OF d1(2)]
    by (simp add: subset_iff)
qed



theorem joint_equals_separate_witness:
  "length (constrainedCoords board_two) = 4 \<and>
   map coordToString (filter (\<lambda>c. coordToString c \<in> left_component) (constrainedCoords board_two))
     = [(1, 0), (1, 1)] \<and>
   length (generateValidAssignments (extractConstraints board_two) (constrainedCoords board_two)) = 4 \<and>
   map_get (calculateConstrainedProbabilities (extractConstraints board_two) (constrainedCoords board_two))
     \<lparr>coord_id = 8, coord_x = 1, coord_y = 1\<rparr> = Some (1 / 2) \<and>
   map_get (calculateConstrainedProbabilities
              (filter (\<lambda>c. coord_x (centerCell c) = 2) (extractConstraints board_two))
              (filter (\<lambda>c. coordToString c \<in> left_component) (constrainedCoords board_two)))
     \<lparr>coord_id = 8, coord_x = 1, coord_y = 1\<rparr> = Some (1 / 2)"
proof -
  define cells where "cells = constrainedCoords board_two"
  define cs where "cs = extractConstraints board_two"
  define cells1 where "cells1 = filter (\<lambda>c. coordToString c \<in> left_component) cells"
  define cells2 where "cells2 = filter (\<lambda>c. coordToString c \<notin> left_component) cells"
  define cs1 where "cs1 = filter (\<lambda>c. coord_x (centerCell c) = 2) cs"
  define cs2 where "cs2 = filter (\<lambda>c. coord_x (centerCell c) \<noteq> 2) cs"
  have h1: "distinct (ids cells)" unfolding cells_def by code_simp
  have h2: "distinct (map coordToString cells)" unfolding cells_def by code_simp
  have len: "length cells = 4" unfolding cells_def by code_simp
  then have h3: "length cells \<le> 19" by simp
  have h6: "set cs = set cs1 \<union> set cs2" unfolding cs1_def cs2_def by auto
  have h7: "\<forall>c\<in>set cs1. coordToString ` set (affectedCells c) \<subseteq> coordToString ` set cells1"
    unfolding cs1_def cells1_def cs_def cells_def by code_simp
  have h8: "\<forall>c\<in>set cs2. coordToString ` set (affectedCells c) \<subseteq> coordToString ` set cells2"
    unfolding cs2_def cells2_def cs_def cells_def by code_simp
  have n: "length (generateValidAssignments cs cells) = 4" unfolding cs_def cells_def by code_simp
  then have h9: "generateValidAssignments cs cells \<noteq> []" by auto
  have k: "map coordToString cells1 = [(1, 0), (1, 1)]"
    unfolding cells1_def cells_def by code_simp
  have mem: "\<lparr>coord_id = 8, coord_x = 1, coord_y = 1\<rparr> \<in> set cells1"
    unfolding cells1_def cells_def by code_simp
  have v: "map_get (calculateConstrainedProbabilities cs cells)
             \<lparr>coord_id = 8, coord_x = 1, coord_y = 1\<rparr> = Some (1 / 2)"
    unfolding cs_def cells_def by code_simp
  from joint_equals_separate[OF h1 h2 h3 cells1_def cells2_def h6 h7 h8 h9] mem
  have "map_get (calculateConstrainedProbabilities cs cells) \<lparr>coord_id = 8, coord_x = 1, coord_y = 1\<rparr>
          = map_get (calculateConstrainedProbabilities cs1 cells1) \<lparr>coord_id = 8, coord_x = 1, coord_y = 1\<rparr>"
    by blast
  then have "map_get (calculateConstrainedProbabilities cs1 cells1)
               \<lparr>coord_id = 8, coord_x = 1, coord_y = 1\<rparr> = Some (1 / 2)"
    using v by simp
  then show ?thesis
    using len k n v unfolding cells_def cs_def cells1_def cs1_def by blast
qed

text \<open>
  The claim as stated fails on \<open>board_wrong_flag\<close>. The wrong flag at \<open>(0, 0)\<close> makes
  the constraints of \<open>(1, 0)\<close> and \<open>(3, 0)\<close> on the cell \<open>(2, 0)\<close> contradict each other;
  the constraint of \<open>(4, 0)\<close> on \<open>(5, 0)\<close> shares no cell with them. Enumerated jointly no
  assignment is valid and both cells get 0.5; enumerated alone, \<open>(5, 0)\<close> gets 1.
\<close>

theorem inconsistent_component_counterexample:
  "map (\<lambda>c. (coordToString (centerCell c), requiredMines c, map coordToString (affectedCells c)))
     (extractConstraints board_wrong_flag)
     = [((1, 0), 0, [(2, 0)]), ((3, 0), 1, [(2, 0)]), ((4, 0), 1, [(5, 0)])] \<and>
   map coordToString (constrainedCoords board_wrong_flag) = [(2, 0), (5, 0)] \<and>
   map snd (calculateConstrainedProbabilities (extractConstraints board_wrong_flag)
              (constrainedCoords board_wrong_flag)) = [1 / 2, 1 / 2] \<and>
   map snd (calculateConstrainedProbabilities (take 2 (extractConstraints board_wrong_flag))
              (take 1 (constrainedCoords board_wrong_flag))) = [1 / 2] \<and>
   map snd (calculateConstrainedProbabilities (drop 2 (extractConstraints board_wrong_flag))
              (drop 1 (constrainedCoords board_wrong_flag))) = [1]"
  by code_simp


section \<open>The board is only read\<close>

lemma run_fold_st:
  assumes "\<And>x a. run_state (f x a) s = (g x a, s)"
  shows "run_state (fold_st f xs a) s = (fold g xs a, s)"
  by (induction xs arbitrary: a) (simp_all add: assms)

lemma fold_append_concat: "fold (\<lambda>x acc. acc @ h x) xs acc = acc @ concat (map h xs)"
  by (induction xs arbitrary: acc) simp_all

lemma fold_append_map: "fold (\<lambda>x acc. acc @ [h x]) xs acc = acc @ map h xs"
  by (induction xs arbitrary: acc) simp_all

lemma run_getAdjacentCells: "run_state (getAdjacentCells_st x y) b = (getAdjacentCells b x y, b)"
  by (simp add: getAdjacentCells_st_def)

lemma run_getRevealedCells: "run_state getRevealedCells_st b = (getRevealedCells b, b)"
  by (simp add: getRevealedCells_st_def)

lemma run_getUnrevealedCells: "run_state getUnrevealedCells_st b = (getUnrevealedCells b, b)"
  by (simp add: getUnrevealedCells_st_def)

lemma run_getFlaggedCount: "run_state getFlaggedCount_st b = (getFlaggedCount b, b)"
  by (simp add: getFlaggedCount_st_def getFlaggedCells_st_def getFlaggedCount_def)

lemma run_getRevealedCount: "run_state getRevealedCount_st b = (getRevealedCount b, b)"
  by (simp add: getRevealedCount_st_def run_getRevealedCells getRevealedCount_def)

lemma run_getMineCount: "run_state getMineCount_st b = (getMineCount b, b)"
  by (simp add: getMineCount_st_def getMineCount_def)

lemma run_getDimensions: "run_state getDimensions_st b = ((width b, height b), b)"
  by (simp add: getDimensions_st_def)

lemma run_constraintStep:
  "run_state (constraintStep_st cell constraints) b = (constraints @ constraintOf b cell, b)"
  by (simp add: constraintStep_st_def run_getAdjacentCells constraintOf_def Let_def)

lemma run_extractConstraints: "run_state extractConstraints_st b = (extractConstraints b, b)"
proof -
  have "run_state (fold_st constraintStep_st (getRevealedCells b) []) b
          = (fold (\<lambda>cell cs. cs @ constraintOf b cell) (getRevealedCells b) [], b)"
    by (rule run_fold_st) (rule run_constraintStep)
  then show ?thesis
    by (simp add: extractConstraints_st_def run_getRevealedCells fold_append_concat
        extractConstraints_def)
qed

lemma run_findGuaranteedMoves: "run_state findGuaranteedMoves_st b = (findGuaranteedMoves b, b)"
  by (simp add: findGuaranteedMoves_st_def run_extractConstraints findGuaranteedMoves_def Let_def)

lemma run_calculateUnconstrainedProbability:
  "run_state (calculateUnconstrainedProbability_st n k) b = (calculateUnconstrainedProbability b n k, b)"
  by (simp add: calculateUnconstrainedProbability_st_def calculateUnconstrainedProbability_def
      run_getMineCount run_getFlaggedCount run_getRevealedCells Let_def)

lemma run_calculateProbabilities: "run_state calculateProbabilities_st b = (calculateProbabilities b, b)"
  by (simp add: calculateProbabilities_st_def calculateProbabilities_def run_extractConstraints
      run_getUnrevealedCells run_calculateUnconstrainedProbability Let_def)

lemma run_calculateInformationGain:
  "run_state (calculateInformationGain_st coord) b = (calculateInformationGain coord b, b)"
  by (simp add: calculateInformationGain_st_def calculateInformationGain_def run_getAdjacentCells Let_def)

lemma run_handleEdgeCases: "run_state (handleEdgeCases_st probs) b = (handleEdgeCases b probs, b)"
proof -
  have "(\<lambda>entry m.
                (let coord = fst entry; prob = snd entry;
                     isCorner = (coord_x coord = 0 \<or> coord_x coord = int (width b) - 1) \<and>
                                (coord_y coord = 0 \<or> coord_y coord = int (height b) - 1);
                     isEdge = coord_x coord = 0 \<or> coord_x coord = int (width b) - 1 \<or>
                              coord_y coord = 0 \<or> coord_y coord = int (height b) - 1
                 in if isCorner then map_set m coord (prob * 0.8)
                    else if isEdge then map_set m coord (prob * 0.9)
                    else m)) = edgeAdjust b"
    by (intro ext) (simp add: edgeAdjust_def)
  then show ?thesis
    by (simp add: handleEdgeCases_st_def handleEdgeCases_def run_getDimensions run_getRevealedCount Let_def)
qed

lemma run_bestStep:
  "run_state (bestStep_st mv best) b
     = ((let gain = calculateInformationGain mv b in if gain > snd best then (mv, gain) else best), b)"
  by (simp add: bestStep_st_def run_calculateInformationGain)

lemma run_selectBestGuaranteedSafe:
  "run_state (selectBestGuaranteedSafe_st first others) b = (selectBestGuaranteedSafe b first others, b)"
proof -
  have "run_state (fold_st bestStep_st others (first, calculateInformationGain first b)) b
          = (fold (\<lambda>mv best. (let gain = calculateInformationGain mv b
                                 in if gain > snd best then (mv, gain) else best))
               others (first, calculateInformationGain first b), b)"
    by (rule run_fold_st) (rule run_bestStep)
  then show ?thesis
    by (simp add: selectBestGuaranteedSafe_st_def selectBestGuaranteedSafe_def
        run_calculateInformationGain)
qed

lemma run_recommendStep:
  "run_state (recommendStep_st entry recs) b
     = (recs @ [\<lparr> coordinate = coordToString (fst entry), probability = snd entry,
                   priority = calculateMovePriority (snd entry)
                                (calculateInformationGain (coordToString (fst entry)) b) \<rparr>], b)"
  by (simp add: recommendStep_st_def run_calculateInformationGain)

lemma run_selectBestProbabilisticMove:
  "run_state (selectBestProbabilisticMove_st probs) b = (selectBestProbabilisticMove b probs, b)"
proof -
  define mk where "mk = (\<lambda>entry::Coordinate \<times> real.
           \<lparr> coordinate = coordToString (fst entry), probability = snd entry,
             priority = calculateMovePriority (snd entry)
                          (calculateInformationGain (coordToString (fst entry)) b) \<rparr>)"
  have "run_state (fold_st recommendStep_st probs []) b
          = (fold (\<lambda>entry recs. recs @ [mk entry]) probs [], b)"
    unfolding mk_def by (rule run_fold_st) (rule run_recommendStep)
  then have run: "run_state (fold_st recommendStep_st probs []) b = (map mk probs, b)"
    by (simp add: fold_append_map)
  have pure: "selectBestProbabilisticMove b probs
               = (case sort_key (\<lambda>r. - priority r) (map mk probs) of [] \<Rightarrow> None | best # _ \<Rightarrow> Some best)"
    by (simp add: selectBestProbabilisticMove_def Let_def mk_def split_def)
  show ?thesis
    by (simp add: selectBestProbabilisticMove_st_def run pure)
qed

lemma run_getBestMove:
  "run_state (getBestMove_st g probs) b = (getBestMove b g probs, b)"
  by (simp add: getBestMove_st_def getBestMove_def run_selectBestGuaranteedSafe
      run_selectBestProbabilisticMove split: list.splits)

text \<open>
  Claim C9. For every board, \<open>analyzeBoard\<close> and the operations it calls (constraint
  extraction, solving, probability calculation, edge adjustment, ranking) leave the board
  as it was, every field of every cell included, and return what the functions of the
  sections above compute.
\<close>

theorem analyzeBoard_leaves_board:
  "run_state analyzeBoard_st b = (analyzeBoard b, b) \<and>
   run_state extractConstraints_st b = (extractConstraints b, b) \<and>
   run_state findGuaranteedMoves_st b = (findGuaranteedMoves b, b) \<and>
   run_state calculateProbabilities_st b = (calculateProbabilities b, b) \<and>
   run_state (handleEdgeCases_st probs) b = (handleEdgeCases b probs, b) \<and>
   run_state (getBestMove_st g probs) b = (getBestMove b g probs, b)"
proof -
  have "run_state analyzeBoard_st b = (analyzeBoard b, b)"
    by (simp add: analyzeBoard_st_def analyzeBoard_def run_findGuaranteedMoves
        run_calculateProbabilities run_handleEdgeCases run_getBestMove Let_def)
  then show ?thesis
    using run_extractConstraints run_findGuaranteedMoves run_calculateProbabilities
      run_handleEdgeCases run_getBestMove by simp
qed

theorem analyzeBoard_leaves_board_witness:
  "snd (run_state analyzeBoard_st board_corner) = board_corner \<and>
   recommendedMove (fst (run_state analyzeBoard_st board_corner)) = Some (2, 1)"
proof -
  have r: "recommendedMove (analyzeBoard board_corner) = Some (2, 1)" by code_simp
  from analyzeBoard_leaves_board[of board_corner "[]" "([], [])"]
  have "run_state analyzeBoard_st board_corner = (analyzeBoard board_corner, board_corner)"
    by blast
  then show ?thesis using r by simp
qed

end
